theory Spec2Isabelle
  imports Main "HOL-Library.AList"
begin

section \<open>Values\<close>

text \<open>
  The configuration, the credential stores and every resolved secret are JavaScript
  values of type \<open>unknown\<close>. A value is a primitive or an object; an object has an
  identity (the first argument of \<open>JObj\<close>), a flag telling whether it is an array, and
  its own enumerable properties in the order \<open>Object.entries\<close> lists them (an array
  holds its elements under the keys 0, 1, ...). Two values alias each other when an
  identity occurs in both (\<open>set_jv\<close>); they are deep-equal when they agree after
  forgetting the identities (\<open>deepEqual\<close>). Numbers are restricted to integers and
  strings to code units below 256: no claim reads a fraction or a wider character.

  A value is a tree: it lists an object once for every path that reaches it. What is
  parsed from a configuration file or from a credential store on disk is a tree in which
  every object is reached by one path only (\<open>unshared\<close>: no identity occurs twice).
  For an object reached by two paths, an assignment through one path would have to show
  through the other one; the walks below do not model this, so what is stated of a walk
  that assigns is stated for unshared inputs.
\<close>

datatype 'a jv =
    JUndefined
  | JNull
  | JBool bool
  | JNum int
  | JStr string
  | JObj 'a bool "(string \<times> 'a jv) list"

definition erase :: "'a jv \<Rightarrow> unit jv" where
  "erase v = map_jv (\<lambda>_. ()) v"

definition deepEqual :: "'a jv \<Rightarrow> 'b jv \<Rightarrow> bool" where
  "deepEqual v w \<longleftrightarrow> erase v = erase w"

datatype error =
    InvalidReference
  | MissingSecret
  | UnsupportedSource
  | NotConfigured
  | UnsupportedSourceType
  | InvalidResolvedValue
  | EmptyResolvedCredential
  | TypeError
  | ExternalFailure string

text \<open>\<open>v.k\<close> and \<open>v?.k\<close>: reading a property of a primitive gives \<open>undefined\<close>; of
  \<open>null\<close> or \<open>undefined\<close> it throws a TypeError, unless the access is optional.\<close>

definition optProp :: "'a jv \<Rightarrow> string \<Rightarrow> 'a jv" where
  "optProp v k =
     (case v of
        JObj _ _ kvs \<Rightarrow> (case map_of kvs k of Some x \<Rightarrow> x | None \<Rightarrow> JUndefined)
      | _ \<Rightarrow> JUndefined)"

definition getProp :: "'a jv \<Rightarrow> string \<Rightarrow> error + 'a jv" where
  "getProp v k =
     (case v of
        JUndefined \<Rightarrow> Inl TypeError
      | JNull \<Rightarrow> Inl TypeError
      | _ \<Rightarrow> Inr (optProp v k))"

definition truthy :: "'a jv \<Rightarrow> bool" where
  "truthy v =
     (case v of
        JUndefined \<Rightarrow> False
      | JNull \<Rightarrow> False
      | JBool b \<Rightarrow> b
      | JNum n \<Rightarrow> n \<noteq> 0
      | JStr s \<Rightarrow> s \<noteq> []
      | JObj _ _ _ \<Rightarrow> True)"

text \<open>The identities of a value, one for every occurrence of an object.\<close>

fun addrs :: "'a jv \<Rightarrow> 'a list"
  and addrsProps :: "(string \<times> 'a jv) list \<Rightarrow> 'a list"
where
  "addrs JUndefined = []"
| "addrs JNull = []"
| "addrs (JBool b) = []"
| "addrs (JNum i) = []"
| "addrs (JStr s) = []"
| "addrs (JObj a arr kvs) = a # addrsProps kvs"
| "addrsProps [] = []"
| "addrsProps (kv # kvs) = addrs (snd kv) @ addrsProps kvs"

definition unshared :: "'a jv \<Rightarrow> bool" where
  "unshared v \<longleftrightarrow> distinct (addrs v)"

text \<open>\<open>structuredClone\<close>: a copy in which every object is new. The second argument is
  the next unused identity; the second result the next one after the copy. Every
  occurrence of an object gets an identity of its own: of an unshared value this is the
  copy the runtime makes, and of any value it is deep-equal to the copy the runtime makes
  and, like it, has no object in common with the original.\<close>

fun structuredClone :: "'a jv \<Rightarrow> nat \<Rightarrow> nat jv \<times> nat"
  and cloneProps :: "(string \<times> 'a jv) list \<Rightarrow> nat \<Rightarrow> (string \<times> nat jv) list \<times> nat"
where
  "structuredClone JUndefined n = (JUndefined, n)"
| "structuredClone JNull n = (JNull, n)"
| "structuredClone (JBool b) n = (JBool b, n)"
| "structuredClone (JNum i) n = (JNum i, n)"
| "structuredClone (JStr s) n = (JStr s, n)"
| "structuredClone (JObj a arr kvs) n =
     (case cloneProps kvs (Suc n) of (kvs', n') \<Rightarrow> (JObj n arr kvs', n'))"
| "cloneProps [] n = ([], n)"
| "cloneProps (kv # kvs) n =
     (case structuredClone (snd kv) n of
        (v', n1) \<Rightarrow> (case cloneProps kvs n1 of (kvs', n2) \<Rightarrow> ((fst kv, v') # kvs', n2)))"

section \<open>Strings\<close>

text \<open>\<open>String.prototype.trim\<close> removes white space and line terminators at both ends:
  among the code units below 256 these are TAB, LF, VT, FF, CR, SP and NBSP.\<close>

definition isWhiteSpace :: "char \<Rightarrow> bool" where
  "isWhiteSpace c \<longleftrightarrow> (of_char c :: nat) \<in> {9, 10, 11, 12, 13, 32, 160}"

definition trim :: "string \<Rightarrow> string" where
  "trim s = rev (dropWhile isWhiteSpace (rev (dropWhile isWhiteSpace s)))"

definition isRecord :: "'a jv \<Rightarrow> bool" where
  "isRecord v = (case v of JObj _ arr _ \<Rightarrow> \<not> arr | _ \<Rightarrow> False)"

definition isNonEmptyString :: "'a jv \<Rightarrow> bool" where
  "isNonEmptyString v = (case v of JStr s \<Rightarrow> trim s \<noteq> [] | _ \<Rightarrow> False)"

section \<open>The resolver\<close>

record SecretRef =
  ref_source :: string
  ref_id :: string

record SopsRequest =
  req_path :: string
  req_timeoutMs :: int

text \<open>The collaborators that live outside this module: the type guard for secret
  references (it gives the value's view as a reference, and sees what a value holds, not
  which object it is), the path helper, the decrypt facility with its
  default timeout, the JSON-pointer lookup (called with \<open>onMissing: "throw"\<close>) and the
  agent-directory helpers. The decrypt facility answers with plain data; the objects it
  is parsed into are allocated when it answers.\<close>

record Externals =
  isSecretRef :: "unit jv \<Rightarrow> SecretRef option"
  resolveUserPath :: "nat jv \<Rightarrow> string"
  DEFAULT_SOPS_TIMEOUT_MS :: int
  decryptSopsJsonFile :: "SopsRequest \<Rightarrow> error + unit jv"
  readJsonPointer :: "nat jv \<Rightarrow> string \<Rightarrow> error + nat jv"
  resolveOpenClawAgentDir :: string
  listAgentIds :: "nat jv \<Rightarrow> string list"
  resolveAgentDir :: "nat jv \<Rightarrow> string \<Rightarrow> string"
  processEnv :: "string \<rightharpoonup> string"
  loadAuthProfileStoreForRuntime :: "string \<Rightarrow> nat jv"

record ResolverContext =
  ctx_config :: "nat jv"
  ctx_env :: "string \<rightharpoonup> string"
  fileSecretsPromise :: "(error + nat jv) option"

datatype SecretResolverWarningCode = SECRETS_REF_OVERRIDES_PLAINTEXT

record SecretResolverWarning =
  w_addr :: nat
  w_code :: SecretResolverWarningCode
  w_path :: string
  w_message :: string

text \<open>The state of one resolution pass: the context and the warnings array the source
  passes around, the allocator (\<open>nextAddr\<close>, the next unused object identity), the calls
  made to the external decrypt facility, oldest first, and the identities of the objects
  assigned to, oldest first. A promise is awaited right where it is made or read, so the
  cache slot holds the outcome it settles to.\<close>

record Pass =
  resolverContext :: ResolverContext
  warnings :: "SecretResolverWarning list"
  nextAddr :: nat
  sopsCalls :: "SopsRequest list"
  assigned :: "nat list"

definition asSecretRef :: "Externals \<Rightarrow> 'a jv \<Rightarrow> SecretRef option" where
  "asSecretRef ext v = isSecretRef ext (erase v)"

definition fileSourceOf :: "nat jv \<Rightarrow> nat jv" where
  "fileSourceOf config = optProp (optProp (optProp config ''secrets'') ''sources'') ''file''"

definition sopsRequestOf :: "Externals \<Rightarrow> nat jv \<Rightarrow> SopsRequest" where
  "sopsRequestOf ext fileSource =
     \<lparr> req_path = resolveUserPath ext (optProp fileSource ''path''),
       req_timeoutMs =
         (case optProp fileSource ''timeoutMs'' of
            JNum t \<Rightarrow> max 1 t
          | _ \<Rightarrow> DEFAULT_SOPS_TIMEOUT_MS ext) \<rparr>"

definition decryptSopsFile :: "Externals \<Rightarrow> nat jv \<Rightarrow> Pass \<Rightarrow> (error + nat jv) \<times> Pass" where
  "decryptSopsFile ext config st =
     (let fileSource = fileSourceOf config in
      if \<not> truthy fileSource then (Inl NotConfigured, st)
      else if optProp fileSource ''type'' \<noteq> JStr ''sops'' then (Inl UnsupportedSourceType, st)
      else
        let req = sopsRequestOf ext fileSource;
            st1 = st\<lparr>sopsCalls := sopsCalls st @ [req]\<rparr>
        in (case decryptSopsJsonFile ext req of
              Inl e \<Rightarrow> (Inl e, st1)
            | Inr payload \<Rightarrow>
                (case structuredClone payload (nextAddr st1) of
                   (v, n) \<Rightarrow> (Inr v, st1\<lparr>nextAddr := n\<rparr>))))"

definition envLookup :: "(string \<rightharpoonup> string) \<Rightarrow> string \<Rightarrow> nat jv" where
  "envLookup env name = (case env name of None \<Rightarrow> JUndefined | Some s \<Rightarrow> JStr s)"

text \<open>\<open>context.fileSecretsPromise ??= decryptSopsFile(context.config)\<close>\<close>

definition ensureFileSecrets :: "Externals \<Rightarrow> Pass \<Rightarrow> (error + nat jv) \<times> Pass" where
  "ensureFileSecrets ext st =
     (case fileSecretsPromise (resolverContext st) of
        Some p \<Rightarrow> (p, st)
      | None \<Rightarrow>
          (case decryptSopsFile ext (ctx_config (resolverContext st)) st of
             (p, st1) \<Rightarrow>
               (p, st1\<lparr>resolverContext := (resolverContext st1)\<lparr>fileSecretsPromise := Some p\<rparr>\<rparr>)))"

text \<open>\<open>const payload = await context.fileSecretsPromise; return readJsonPointer(payload, id)\<close>:
  a rejected promise throws its failure at every reader.\<close>

definition readFromPromise :: "Externals \<Rightarrow> error + nat jv \<Rightarrow> string \<Rightarrow> error + nat jv" where
  "readFromPromise ext p i =
     (case p of Inl e \<Rightarrow> Inl e | Inr payload \<Rightarrow> readJsonPointer ext payload i)"

definition resolveSecretRefValue :: "Externals \<Rightarrow> SecretRef \<Rightarrow> Pass \<Rightarrow> (error + nat jv) \<times> Pass" where
  "resolveSecretRefValue ext ref st =
     (let i = trim (ref_id ref) in
      if i = [] then (Inl InvalidReference, st)
      else if ref_source ref = ''env'' then
        (let envValue = envLookup (ctx_env (resolverContext st)) i in
         if \<not> isNonEmptyString envValue then (Inl MissingSecret, st)
         else (Inr envValue, st))
      else if ref_source ref = ''file'' then
        (case ensureFileSecrets ext st of
           (p, st1) \<Rightarrow> (readFromPromise ext p i, st1))
      else (Inl UnsupportedSource, st))"

section \<open>Failure and state\<close>

text \<open>A step either throws or returns a value, and leaves a state behind in both cases;
  \<open>andThen\<close> runs the next step unless the first one threw.\<close>

definition andThen ::
  "(error + 'a) \<times> Pass \<Rightarrow> ('a \<Rightarrow> Pass \<Rightarrow> (error + 'b) \<times> Pass) \<Rightarrow> (error + 'b) \<times> Pass" where
  "andThen m f = (case m of (Inl e, st) \<Rightarrow> (Inl e, st) | (Inr x, st) \<Rightarrow> f x st)"

text \<open>\<open>warnings.push({ code, path, message })\<close>: the warning is a new object.\<close>

definition pushWarning :: "string \<Rightarrow> string \<Rightarrow> Pass \<Rightarrow> Pass" where
  "pushWarning path message st =
     st\<lparr> warnings := warnings st @
            [\<lparr> w_addr = nextAddr st, w_code = SECRETS_REF_OVERRIDES_PLAINTEXT,
               w_path = path, w_message = message \<rparr>],
         nextAddr := Suc (nextAddr st) \<rparr>"

text \<open>\<open>target.k = v\<close>: an existing property keeps its place, a new one goes last; the
  object assigned to is recorded. Assigning to a property of a primitive throws (the module
  is strict code).\<close>

definition assignProp :: "nat jv \<Rightarrow> string \<Rightarrow> nat jv \<Rightarrow> Pass \<Rightarrow> (error + nat jv) \<times> Pass" where
  "assignProp target k v st =
     (case target of
        JObj a arr kvs \<Rightarrow>
          (Inr (JObj a arr (AList.update k v kvs)), st\<lparr>assigned := assigned st @ [a]\<rparr>)
      | _ \<Rightarrow> (Inl TypeError, st))"

text \<open>\<open>Object.entries\<close>. The entries of a string are its characters, which have no
  properties of their own: each loop below passes over them untouched, and they are left
  out.\<close>

definition objectEntries :: "'a jv \<Rightarrow> error + (string \<times> 'a jv) list" where
  "objectEntries v =
     (case v of
        JUndefined \<Rightarrow> Inl TypeError
      | JNull \<Rightarrow> Inl TypeError
      | JObj _ _ kvs \<Rightarrow> Inr kvs
      | _ \<Rightarrow> Inr [])"

text \<open>A loop \<open>for (const [key, value] of Object.entries(o))\<close> whose body assigns to
  \<open>value\<close>: the body returns the object as it is after the iteration, and the loop the
  entries as they are at its end. The first iteration that throws ends the loop.\<close>

fun forEntries ::
  "(string \<Rightarrow> nat jv \<Rightarrow> Pass \<Rightarrow> (error + nat jv) \<times> Pass) \<Rightarrow> (string \<times> nat jv) list \<Rightarrow> Pass
   \<Rightarrow> (error + (string \<times> nat jv) list) \<times> Pass" where
  "forEntries body [] st = (Inr [], st)"
| "forEntries body (kv # rest) st =
     (case body (fst kv) (snd kv) st of
        (Inl e, st1) \<Rightarrow> (Inl e, st1)
      | (Inr v, st1) \<Rightarrow>
          (case forEntries body rest st1 of
             (Inl e, st2) \<Rightarrow> (Inl e, st2)
           | (Inr done, st2) \<Rightarrow> (Inr ((fst kv, v) # done), st2)))"

text \<open>The view of an object after its property objects were assigned to: the same
  object, holding the property values as they are now.\<close>

definition withEntries :: "'a jv \<Rightarrow> (string \<times> 'a jv) list \<Rightarrow> 'a jv" where
  "withEntries v kvs = (case v of JObj a arr _ \<Rightarrow> JObj a arr kvs | _ \<Rightarrow> v)"

definition withProp :: "'a jv \<Rightarrow> string \<Rightarrow> 'a jv \<Rightarrow> 'a jv" where
  "withProp v k x = (case v of JObj a arr kvs \<Rightarrow> JObj a arr (AList.update k x kvs) | _ \<Rightarrow> v)"

section \<open>The configuration walk\<close>

definition resolveGoogleChatServiceAccount ::
  "Externals \<Rightarrow> nat jv \<Rightarrow> string \<Rightarrow> Pass \<Rightarrow> (error + nat jv) \<times> Pass" where
  "resolveGoogleChatServiceAccount ext target path st =
     (let explicitRef = asSecretRef ext (optProp target ''serviceAccountRef'');
          inlineRef = asSecretRef ext (optProp target ''serviceAccount'');
          ref = (case explicitRef of Some r \<Rightarrow> Some r | None \<Rightarrow> inlineRef)
      in case ref of
           None \<Rightarrow> (Inr target, st)
         | Some r \<Rightarrow>
             let st1 =
               (if explicitRef \<noteq> None \<and> optProp target ''serviceAccount'' \<noteq> JUndefined
                   \<and> asSecretRef ext (optProp target ''serviceAccount'') = None
                then pushWarning path
                       (path @ '': serviceAccountRef is set; runtime will ignore plaintext serviceAccount.'')
                       st
                else st)
             in andThen (resolveSecretRefValue ext r st1)
                  (\<lambda>resolvedValue st2. assignProp target ''serviceAccount'' resolvedValue st2))"

definition resolveProviderApiKey ::
  "Externals \<Rightarrow> string \<Rightarrow> nat jv \<Rightarrow> Pass \<Rightarrow> (error + nat jv) \<times> Pass" where
  "resolveProviderApiKey ext providerId provider st =
     andThen (getProp provider ''apiKey'', st)
       (\<lambda>apiKey st0.
          case asSecretRef ext apiKey of
            None \<Rightarrow> (Inr provider, st0)
          | Some ref \<Rightarrow>
              andThen (resolveSecretRefValue ext ref st0)
                (\<lambda>resolvedValue st1.
                   if \<not> isNonEmptyString resolvedValue then (Inl InvalidResolvedValue, st1)
                   else assignProp provider ''apiKey'' resolvedValue st1))"

definition resolveGoogleChatAccount ::
  "Externals \<Rightarrow> string \<Rightarrow> nat jv \<Rightarrow> Pass \<Rightarrow> (error + nat jv) \<times> Pass" where
  "resolveGoogleChatAccount ext accountId account st =
     (if \<not> isRecord account then (Inr account, st)
      else resolveGoogleChatServiceAccount ext account
             (''channels.googlechat.accounts.'' @ accountId) st)"

text \<open>The first half of the walk, on the copy: the provider API keys.\<close>

definition resolveProviders :: "Externals \<Rightarrow> nat jv \<Rightarrow> Pass \<Rightarrow> (error + nat jv) \<times> Pass" where
  "resolveProviders ext resolved st =
     (let models = optProp resolved ''models'';
          providers = optProp models ''providers''
      in if \<not> truthy providers then (Inr resolved, st)
         else
           andThen (objectEntries providers, st)
             (\<lambda>entries st0.
                andThen (forEntries (resolveProviderApiKey ext) entries st0)
                  (\<lambda>done st1.
                     (Inr (withProp resolved ''models''
                             (withProp models ''providers'' (withEntries providers done))),
                      st1))))"

text \<open>The second half: the Google Chat entry and its accounts.\<close>

definition resolveGoogleChatAccounts :: "Externals \<Rightarrow> nat jv \<Rightarrow> Pass \<Rightarrow> (error + nat jv) \<times> Pass" where
  "resolveGoogleChatAccounts ext googleChat st =
     (let accounts = optProp googleChat ''accounts''
      in if \<not> isRecord accounts then (Inr googleChat, st)
         else
           andThen (objectEntries accounts, st)
             (\<lambda>entries st0.
                andThen (forEntries (resolveGoogleChatAccount ext) entries st0)
                  (\<lambda>done st1.
                     (Inr (withProp googleChat ''accounts'' (withEntries accounts done)), st1))))"

definition resolveGoogleChat :: "Externals \<Rightarrow> nat jv \<Rightarrow> Pass \<Rightarrow> (error + nat jv) \<times> Pass" where
  "resolveGoogleChat ext resolved st =
     (let channels = optProp resolved ''channels'';
          googleChat = optProp channels ''googlechat''
      in if \<not> truthy googleChat then (Inr resolved, st)
         else
           andThen (resolveGoogleChatServiceAccount ext googleChat ''channels.googlechat'' st)
             (\<lambda>googleChat1 st1.
                andThen (resolveGoogleChatAccounts ext googleChat1 st1)
                  (\<lambda>googleChat2 st2.
                     (Inr (withProp resolved ''channels''
                             (withProp channels ''googlechat'' googleChat2)),
                      st2))))"

definition resolveConfigSecretRefs :: "Externals \<Rightarrow> nat jv \<Rightarrow> Pass \<Rightarrow> (error + nat jv) \<times> Pass" where
  "resolveConfigSecretRefs ext config st =
     (case structuredClone config (nextAddr st) of
        (resolved, n) \<Rightarrow>
          andThen (resolveProviders ext resolved (st\<lparr>nextAddr := n\<rparr>))
            (\<lambda>resolved1 st1. resolveGoogleChat ext resolved1 st1))"

section \<open>The credential-store walk\<close>

definition resolveApiKeyProfile ::
  "Externals \<Rightarrow> string \<Rightarrow> string \<Rightarrow> nat jv \<Rightarrow> Pass \<Rightarrow> (error + nat jv) \<times> Pass" where
  "resolveApiKeyProfile ext agentDir profileId apiProfile st =
     (let keyRef = asSecretRef ext (optProp apiProfile ''keyRef'');
          st1 =
            (if keyRef \<noteq> None \<and> isNonEmptyString (optProp apiProfile ''key'')
             then pushWarning (agentDir @ ''.auth-profiles.'' @ profileId @ ''.key'')
                    (''auth-profiles '' @ profileId
                       @ '': keyRef is set; runtime will ignore plaintext key.'')
                    st
             else st)
      in case keyRef of
           None \<Rightarrow> (Inr apiProfile, st1)
         | Some ref \<Rightarrow>
             andThen (resolveSecretRefValue ext ref st1)
               (\<lambda>resolvedValue st2.
                  if \<not> isNonEmptyString resolvedValue then (Inl EmptyResolvedCredential, st2)
                  else assignProp apiProfile ''key'' resolvedValue st2))"

definition resolveTokenProfile ::
  "Externals \<Rightarrow> string \<Rightarrow> string \<Rightarrow> nat jv \<Rightarrow> Pass \<Rightarrow> (error + nat jv) \<times> Pass" where
  "resolveTokenProfile ext agentDir profileId tokenProfile st =
     (let tokenRef = asSecretRef ext (optProp tokenProfile ''tokenRef'');
          st1 =
            (if tokenRef \<noteq> None \<and> isNonEmptyString (optProp tokenProfile ''token'')
             then pushWarning (agentDir @ ''.auth-profiles.'' @ profileId @ ''.token'')
                    (''auth-profiles '' @ profileId
                       @ '': tokenRef is set; runtime will ignore plaintext token.'')
                    st
             else st)
      in case tokenRef of
           None \<Rightarrow> (Inr tokenProfile, st1)
         | Some ref \<Rightarrow>
             andThen (resolveSecretRefValue ext ref st1)
               (\<lambda>resolvedValue st2.
                  if \<not> isNonEmptyString resolvedValue then (Inl EmptyResolvedCredential, st2)
                  else assignProp tokenProfile ''token'' resolvedValue st2))"

definition resolveProfile ::
  "Externals \<Rightarrow> string \<Rightarrow> string \<Rightarrow> nat jv \<Rightarrow> Pass \<Rightarrow> (error + nat jv) \<times> Pass" where
  "resolveProfile ext agentDir profileId profile st =
     andThen (getProp profile ''type'', st)
       (\<lambda>profileType st0.
          if profileType = JStr ''api_key''
          then resolveApiKeyProfile ext agentDir profileId profile st0
          else if profileType = JStr ''token''
          then resolveTokenProfile ext agentDir profileId profile st0
          else (Inr profile, st0))"

definition resolveAuthStoreSecretRefs ::
  "Externals \<Rightarrow> nat jv \<Rightarrow> string \<Rightarrow> Pass \<Rightarrow> (error + nat jv) \<times> Pass" where
  "resolveAuthStoreSecretRefs ext store agentDir st =
     (case structuredClone store (nextAddr st) of
        (resolvedStore, n) \<Rightarrow>
          andThen (getProp resolvedStore ''profiles'', st\<lparr>nextAddr := n\<rparr>)
            (\<lambda>profiles st0.
               andThen (objectEntries profiles, st0)
                 (\<lambda>entries st1.
                    andThen (forEntries (resolveProfile ext agentDir) entries st1)
                      (\<lambda>done st2.
                         (Inr (withProp resolvedStore ''profiles'' (withEntries profiles done)),
                          st2)))))"

section \<open>Snapshots\<close>

record AuthStoreEntry =
  entry_addr :: nat
  entry_agentDir :: string
  entry_store :: "nat jv"

text \<open>The snapshot object, its two arrays, the entries of \<open>authStores\<close> and the warnings
  are objects too: each carries its identity.\<close>

record PreparedSecretsRuntimeSnapshot =
  snap_addr :: nat
  snap_sourceConfig :: "nat jv"
  snap_config :: "nat jv"
  snap_authStoresAddr :: nat
  snap_authStores :: "AuthStoreEntry list"
  snap_warningsAddr :: nat
  snap_warnings :: "SecretResolverWarning list"

definition entryAddrs :: "AuthStoreEntry \<Rightarrow> nat set" where
  "entryAddrs e = insert (entry_addr e) (set_jv (entry_store e))"

definition snapshotAddrs :: "PreparedSecretsRuntimeSnapshot \<Rightarrow> nat set" where
  "snapshotAddrs s =
     {snap_addr s, snap_authStoresAddr s, snap_warningsAddr s}
       \<union> set_jv (snap_sourceConfig s) \<union> set_jv (snap_config s)
       \<union> \<Union> (set (map entryAddrs (snap_authStores s)))
       \<union> set (map w_addr (snap_warnings s))"

definition warningContent :: "SecretResolverWarning \<Rightarrow> SecretResolverWarningCode \<times> string \<times> string" where
  "warningContent w = (w_code w, w_path w, w_message w)"

definition snapshotContent ::
  "PreparedSecretsRuntimeSnapshot \<Rightarrow>
     unit jv \<times> unit jv \<times> (string \<times> unit jv) list
       \<times> (SecretResolverWarningCode \<times> string \<times> string) list" where
  "snapshotContent s =
     (erase (snap_sourceConfig s), erase (snap_config s),
      map (\<lambda>e. (entry_agentDir e, erase (entry_store e))) (snap_authStores s),
      map warningContent (snap_warnings s))"

definition deepEqualSnapshot ::
  "PreparedSecretsRuntimeSnapshot \<Rightarrow> PreparedSecretsRuntimeSnapshot \<Rightarrow> bool" where
  "deepEqualSnapshot s t \<longleftrightarrow> snapshotContent s = snapshotContent t"

text \<open>\<open>[...new Set(xs)]\<close>: the first occurrence of each element, in order.\<close>

definition dedupe :: "'a list \<Rightarrow> 'a list" where
  "dedupe xs = foldl (\<lambda>seen x. if x \<in> set seen then seen else seen @ [x]) [] xs"

definition collectCandidateAgentDirs :: "Externals \<Rightarrow> nat jv \<Rightarrow> string list" where
  "collectCandidateAgentDirs ext config =
     dedupe (resolveUserPath ext (JStr (resolveOpenClawAgentDir ext))
             # map (\<lambda>agentId. resolveUserPath ext (JStr (resolveAgentDir ext config agentId)))
                 (listAgentIds ext config))"

record PrepareParams =
  p_config :: "nat jv"
  p_env :: "(string \<rightharpoonup> string) option"
  p_agentDirs :: "string list option"
  p_loadAuthStore :: "(string \<Rightarrow> nat jv) option"

text \<open>The loop over the candidate directories: load, resolve, push a new entry.\<close>

fun resolveAuthStores ::
  "Externals \<Rightarrow> (string \<Rightarrow> nat jv) \<Rightarrow> string list \<Rightarrow> Pass \<Rightarrow> (error + AuthStoreEntry list) \<times> Pass" where
  "resolveAuthStores ext loadAuthStore [] st = (Inr [], st)"
| "resolveAuthStores ext loadAuthStore (agentDir # rest) st =
     andThen (resolveAuthStoreSecretRefs ext (loadAuthStore agentDir) agentDir st)
       (\<lambda>resolvedStore st1.
          let entry = \<lparr> entry_addr = nextAddr st1, entry_agentDir = agentDir,
                        entry_store = resolvedStore \<rparr>
          in case resolveAuthStores ext loadAuthStore rest (st1\<lparr>nextAddr := Suc (nextAddr st1)\<rparr>) of
               (Inl e, st2) \<Rightarrow> (Inl e, st2)
             | (Inr entries, st2) \<Rightarrow> (Inr (entry # entries), st2))"

text \<open>A pass starts with a new warnings array and a new context; \<open>n\<close> is the next unused
  identity when \<open>prepare\<close> is called.\<close>

definition newPass :: "nat jv \<Rightarrow> (string \<rightharpoonup> string) \<Rightarrow> nat \<Rightarrow> Pass" where
  "newPass config env n =
     \<lparr> resolverContext = \<lparr> ctx_config = config, ctx_env = env, fileSecretsPromise = None \<rparr>,
       warnings = [], nextAddr = n, sopsCalls = [], assigned = [] \<rparr>"

definition prepareSecretsRuntimeSnapshot ::
  "Externals \<Rightarrow> PrepareParams \<Rightarrow> nat \<Rightarrow> (error + PreparedSecretsRuntimeSnapshot) \<times> Pass" where
  "prepareSecretsRuntimeSnapshot ext params n =
     (let warningsAddr = n;
          env = (case p_env params of Some e \<Rightarrow> e | None \<Rightarrow> processEnv ext)
      in andThen (resolveConfigSecretRefs ext (p_config params)
                    (newPass (p_config params) env (Suc n)))
           (\<lambda>resolvedConfig st1.
              let loadAuthStore =
                    (case p_loadAuthStore params of
                       Some f \<Rightarrow> f
                     | None \<Rightarrow> loadAuthProfileStoreForRuntime ext);
                  candidateDirs =
                    (case p_agentDirs params of
                       Some (d # ds) \<Rightarrow>
                         dedupe (map (\<lambda>entry. resolveUserPath ext (JStr entry)) (d # ds))
                     | _ \<Rightarrow> collectCandidateAgentDirs ext resolvedConfig);
                  authStoresAddr = nextAddr st1
              in andThen (resolveAuthStores ext loadAuthStore candidateDirs
                            (st1\<lparr>nextAddr := Suc authStoresAddr\<rparr>))
                   (\<lambda>authStores st2.
                      case structuredClone (p_config params) (nextAddr st2) of
                        (sourceConfig, n1) \<Rightarrow>
                          (Inr \<lparr> snap_addr = n1,
                                 snap_sourceConfig = sourceConfig,
                                 snap_config = resolvedConfig,
                                 snap_authStoresAddr = authStoresAddr,
                                 snap_authStores = authStores,
                                 snap_warningsAddr = warningsAddr,
                                 snap_warnings = warnings st2 \<rparr>,
                           st2\<lparr>nextAddr := Suc n1\<rparr>))))"

section \<open>The active snapshot\<close>

fun cloneAuthStores :: "AuthStoreEntry list \<Rightarrow> nat \<Rightarrow> AuthStoreEntry list \<times> nat" where
  "cloneAuthStores [] n = ([], n)"
| "cloneAuthStores (entry # rest) n =
     (case structuredClone (entry_store entry) n of
        (store, n1) \<Rightarrow>
          (case cloneAuthStores rest (Suc n1) of
             (entries, n2) \<Rightarrow>
               (\<lparr> entry_addr = n1, entry_agentDir = entry_agentDir entry, entry_store = store \<rparr>
                  # entries, n2)))"

fun cloneWarnings :: "SecretResolverWarning list \<Rightarrow> nat \<Rightarrow> SecretResolverWarning list \<times> nat" where
  "cloneWarnings [] n = ([], n)"
| "cloneWarnings (warning # rest) n =
     (case cloneWarnings rest (Suc n) of
        (copies, n1) \<Rightarrow> (warning\<lparr>w_addr := n\<rparr> # copies, n1))"

definition cloneSnapshot ::
  "PreparedSecretsRuntimeSnapshot \<Rightarrow> nat \<Rightarrow> PreparedSecretsRuntimeSnapshot \<times> nat" where
  "cloneSnapshot snapshot n =
     (case structuredClone (snap_sourceConfig snapshot) n of
        (sourceConfig, n1) \<Rightarrow>
          (case structuredClone (snap_config snapshot) n1 of
             (config, n2) \<Rightarrow>
               (case cloneAuthStores (snap_authStores snapshot) (Suc n2) of
                  (authStores, n3) \<Rightarrow>
                    (case cloneWarnings (snap_warnings snapshot) (Suc n3) of
                       (copies, n4) \<Rightarrow>
                         (\<lparr> snap_addr = n4,
                            snap_sourceConfig = sourceConfig,
                            snap_config = config,
                            snap_authStoresAddr = n2,
                            snap_authStores = authStores,
                            snap_warningsAddr = n3,
                            snap_warnings = copies \<rparr>,
                          Suc n4)))))"

text \<open>The module's variable \<open>activeSnapshot\<close>, the two process-wide registries it
  publishes to (they keep what they are handed), and the allocator.\<close>

record Runtime =
  activeSnapshot :: "PreparedSecretsRuntimeSnapshot option"
  runtimeConfigSnapshot :: "(nat jv \<times> nat jv) option"
  runtimeAuthProfileStoreSnapshots :: "AuthStoreEntry list"
  heapNext :: nat

definition activateSecretsRuntimeSnapshot :: "PreparedSecretsRuntimeSnapshot \<Rightarrow> Runtime \<Rightarrow> Runtime" where
  "activateSecretsRuntimeSnapshot snapshot rt =
     (case cloneSnapshot snapshot (heapNext rt) of
        (next, n) \<Rightarrow>
          rt\<lparr> runtimeConfigSnapshot := Some (snap_config next, snap_sourceConfig next),
              runtimeAuthProfileStoreSnapshots := snap_authStores next,
              activeSnapshot := Some next,
              heapNext := n \<rparr>)"

definition getActiveSecretsRuntimeSnapshot ::
  "Runtime \<Rightarrow> PreparedSecretsRuntimeSnapshot option \<times> Runtime" where
  "getActiveSecretsRuntimeSnapshot rt =
     (case activeSnapshot rt of
        None \<Rightarrow> (None, rt)
      | Some active \<Rightarrow>
          (case cloneSnapshot active (heapNext rt) of
             (copy, n) \<Rightarrow> (Some copy, rt\<lparr>heapNext := n\<rparr>)))"

definition clearSecretsRuntimeSnapshot :: "Runtime \<Rightarrow> Runtime" where
  "clearSecretsRuntimeSnapshot rt =
     rt\<lparr> activeSnapshot := None, runtimeConfigSnapshot := None,
         runtimeAuthProfileStoreSnapshots := [] \<rparr>"

section \<open>Runs on concrete inputs\<close>

text \<open>Resolving several references one after the other in the same context, each failure
  caught by the caller.\<close>

fun resolveInSequence ::
  "Externals \<Rightarrow> SecretRef list \<Rightarrow> Pass \<Rightarrow> (error + nat jv) list \<times> Pass" where
  "resolveInSequence ext [] st = ([], st)"
| "resolveInSequence ext (ref # rest) st =
     (case resolveSecretRefValue ext ref st of
        (outcome, st1) \<Rightarrow>
          (case resolveInSequence ext rest st1 of
             (outcomes, st2) \<Rightarrow> (outcome # outcomes, st2)))"

text \<open>Modelled from the spec: \<open>isSecretRef\<close> (config/types.secrets) is not among the
  sources. The spec gives a secret reference as \<open>{ source: "env" | "file", id: string }\<close>.
  The theorems below hold for every type guard; this one is used to run examples.\<close>

definition specIsSecretRef :: "unit jv \<Rightarrow> SecretRef option" where
  "specIsSecretRef v =
     (case (optProp v ''source'', optProp v ''id'') of
        (JStr s, JStr i) \<Rightarrow>
          if isRecord v \<and> (s = ''env'' \<or> s = ''file'')
          then Some \<lparr> ref_source = s, ref_id = i \<rparr>
          else None
      | _ \<Rightarrow> None)"

text \<open>Stand-ins for the other collaborators, as a test would inject them: a decrypt
  facility given as an argument, and a pointer lookup for one-segment pointers.\<close>

definition testExternals :: "(SopsRequest \<Rightarrow> error + unit jv) \<Rightarrow> Externals" where
  "testExternals decrypt =
     \<lparr> isSecretRef = specIsSecretRef,
       resolveUserPath = (\<lambda>v. case v of JStr p \<Rightarrow> p | _ \<Rightarrow> []),
       DEFAULT_SOPS_TIMEOUT_MS = 5000,
       decryptSopsJsonFile = decrypt,
       readJsonPointer =
         (\<lambda>payload pointer.
            case optProp payload (drop 1 pointer) of
              JUndefined \<Rightarrow> Inl MissingSecret
            | v \<Rightarrow> Inr v),
       resolveOpenClawAgentDir = ''/agents/main'',
       listAgentIds = (\<lambda>_. []),
       resolveAgentDir = (\<lambda>_ agentId. ''/agents/'' @ agentId),
       processEnv = Map.empty,
       loadAuthProfileStoreForRuntime =
         (\<lambda>_. JObj 0 False [(''version'', JNum 1), (''profiles'', JObj 1 False [])]) \<rparr>"

definition sopsConfig :: "nat jv" where
  "sopsConfig =
     JObj 0 False
       [(''secrets'', JObj 1 False
          [(''sources'', JObj 2 False
             [(''file'', JObj 3 False
                [(''type'', JStr ''sops''), (''path'', JStr ''secrets.enc.json'')])])])]"

definition sopsPayload :: "unit jv" where
  "sopsPayload = JObj () False [(''token'', JStr ''t0p''), (''key'', JStr ''k3y'')]"

definition plainConfig :: "nat jv" where
  "plainConfig = JObj 0 False [(''models'', JObj 1 False [])]"

definition vaultConfig :: "nat jv" where
  "vaultConfig =
     JObj 0 False
       [(''secrets'', JObj 1 False
          [(''sources'', JObj 2 False
             [(''file'', JObj 3 False
                [(''type'', JStr ''vault''), (''path'', JStr ''secrets.enc.json'')])])])]"

section \<open>What the claims speak of\<close>

definition googleChatOverride :: "Externals \<Rightarrow> 'a jv \<Rightarrow> bool" where
  "googleChatOverride ext target \<longleftrightarrow>
     asSecretRef ext (optProp target ''serviceAccountRef'') \<noteq> None
     \<and> optProp target ''serviceAccount'' \<noteq> JUndefined
     \<and> asSecretRef ext (optProp target ''serviceAccount'') = None"

definition nonEmptyValue :: "'a jv \<Rightarrow> bool" where
  "nonEmptyValue v = (case v of JUndefined \<Rightarrow> False | JNull \<Rightarrow> False | JStr s \<Rightarrow> s \<noteq> [] | _ \<Rightarrow> True)"

definition googleChatOverrideMessage :: "string \<Rightarrow> string" where
  "googleChatOverrideMessage path =
     path @ '': serviceAccountRef is set; runtime will ignore plaintext serviceAccount.''"

definition googleChatWarnings ::
  "Externals \<Rightarrow> string \<Rightarrow> 'a jv \<Rightarrow> (SecretResolverWarningCode \<times> string \<times> string) list" where
  "googleChatWarnings ext path target =
     (if googleChatOverride ext target
      then [(SECRETS_REF_OVERRIDES_PLAINTEXT, path, googleChatOverrideMessage path)]
      else [])"

definition googleChatAccountEntries :: "'a jv \<Rightarrow> (string \<times> 'a jv) list" where
  "googleChatAccountEntries googleChat =
     (case optProp googleChat ''accounts'' of JObj _ False kvs \<Rightarrow> kvs | _ \<Rightarrow> [])"

definition exampleExternals :: Externals where
  "exampleExternals = testExternals (\<lambda>_. Inr sopsPayload)"

definition exampleEnv :: "string \<rightharpoonup> string" where
  "exampleEnv = [''ACME_KEY'' \<mapsto> ''secret123'', ''GC_SA'' \<mapsto> ''resolved'', ''X'' \<mapsto> ''resolved'']"

definition emptyPlaintextTarget :: "nat jv" where
  "emptyPlaintextTarget =
     JObj 7 False
       [(''serviceAccountRef'', JObj 8 False [(''source'', JStr ''env''), (''id'', JStr ''GC_SA'')]),
        (''serviceAccount'', JStr [])]"

definition configWalkWarnings ::
  "Externals \<Rightarrow> 'a jv \<Rightarrow> (SecretResolverWarningCode \<times> string \<times> string) list" where
  "configWalkWarnings ext config =
     (let googleChat = optProp (optProp config ''channels'') ''googlechat''
      in if \<not> truthy googleChat then []
         else googleChatWarnings ext ''channels.googlechat'' googleChat
              @ concat (map (\<lambda>kv. if isRecord (snd kv)
                                  then googleChatWarnings ext
                                         (''channels.googlechat.accounts.'' @ fst kv) (snd kv)
                                  else [])
                          (googleChatAccountEntries googleChat)))"

definition bothRefsTarget :: "nat jv" where
  "bothRefsTarget =
     JObj 7 False
       [(''serviceAccountRef'', JObj 8 False [(''source'', JStr ''env''), (''id'', JStr ''GC_SA'')]),
        (''serviceAccount'', JObj 9 False [(''source'', JStr ''env''), (''id'', JStr ''ACME_KEY'')])]"

definition providerEntries :: "'a jv \<Rightarrow> (string \<times> 'a jv) list" where
  "providerEntries config =
     (let providers = optProp (optProp config ''models'') ''providers''
      in if \<not> truthy providers then []
         else (case objectEntries providers of Inl _ \<Rightarrow> [] | Inr entries \<Rightarrow> entries))"

definition hasNoSecretRefs :: "Externals \<Rightarrow> 'a jv \<Rightarrow> bool" where
  "hasNoSecretRefs ext config \<longleftrightarrow>
     list_all (\<lambda>kv. asSecretRef ext (optProp (snd kv) ''apiKey'') = None) (providerEntries config)
     \<and> (let googleChat = optProp (optProp config ''channels'') ''googlechat''
        in truthy googleChat \<longrightarrow>
             asSecretRef ext (optProp googleChat ''serviceAccountRef'') = None
             \<and> asSecretRef ext (optProp googleChat ''serviceAccount'') = None
             \<and> list_all (\<lambda>kv. isRecord (snd kv) \<longrightarrow>
                    asSecretRef ext (optProp (snd kv) ''serviceAccountRef'') = None
                    \<and> asSecretRef ext (optProp (snd kv) ''serviceAccount'') = None)
                  (googleChatAccountEntries googleChat))"

definition providersReadable :: "'a jv \<Rightarrow> bool" where
  "providersReadable config \<longleftrightarrow>
     list_all (\<lambda>kv. snd kv \<noteq> JNull \<and> snd kv \<noteq> JUndefined) (providerEntries config)"

definition acmeConfig :: "nat jv" where
  "acmeConfig =
     JObj 0 False
       [(''models'', JObj 1 False
          [(''providers'', JObj 2 False
             [(''acme'', JObj 3 False
                 [(''apiKey'', JObj 4 False [(''source'', JStr ''env''), (''id'', JStr ''ACME_KEY'')])]),
              (''local'', JObj 5 False [(''apiKey'', JStr ''sk-plain''), (''baseUrl'', JStr ''http://localhost'')])])])]"

definition acmeConfigResolved :: "nat jv" where
  "acmeConfigResolved =
     JObj 30 False
       [(''models'', JObj 31 False
          [(''providers'', JObj 32 False
             [(''acme'', JObj 33 False [(''apiKey'', JStr ''secret123'')]),
              (''local'', JObj 35 False [(''apiKey'', JStr ''sk-plain''), (''baseUrl'', JStr ''http://localhost'')])])])]"

definition countProvider :: "nat jv" where
  "countProvider =
     JObj 3 False [(''apiKey'', JObj 4 False [(''source'', JStr ''file''), (''id'', JStr ''/count'')])]"

definition plaintextConfig :: "nat jv" where
  "plaintextConfig =
     JObj 0 False
       [(''models'', JObj 1 False
          [(''providers'', JObj 2 False
             [(''local'', JObj 3 False [(''apiKey'', JStr ''sk-plain'')])])]),
        (''channels'', JObj 4 False
          [(''googlechat'', JObj 5 False
             [(''serviceAccount'', JStr ''{}''),
              (''accounts'', JObj 6 False
                 [(''a'', JObj 7 False [(''serviceAccount'', JStr ''{}'')]),
                  (''b'', JNull)])])])]"

definition countExternals :: Externals where
  "countExternals = testExternals (\<lambda>_. Inr (JObj () False [(''count'', JNum 3)]))"

definition acmeRef :: "nat jv" where
  "acmeRef = JObj 4 False [(''source'', JStr ''env''), (''id'', JStr ''ACME_KEY'')]"

definition credentialWarning :: "string \<Rightarrow> string \<Rightarrow> string \<Rightarrow> string \<Rightarrow> nat \<Rightarrow> SecretResolverWarning" where
  "credentialWarning agentDir profileId field refField addr =
     \<lparr> w_addr = addr, w_code = SECRETS_REF_OVERRIDES_PLAINTEXT,
       w_path = agentDir @ ''.auth-profiles.'' @ profileId @ ''.'' @ field,
       w_message = ''auth-profiles '' @ profileId @ '': '' @ refField
                     @ '' is set; runtime will ignore plaintext '' @ field @ ''.'' \<rparr>"

definition credentialResolved ::
  "Externals \<Rightarrow> string \<Rightarrow> string \<Rightarrow> string \<Rightarrow> string \<Rightarrow> nat jv \<Rightarrow> Pass
     \<Rightarrow> (error + nat jv) \<times> Pass \<Rightarrow> bool" where
  "credentialResolved ext agentDir profileId field refField profile st out \<longleftrightarrow>
     (case asSecretRef ext (optProp profile refField) of
        None \<Rightarrow> out = (Inr profile, st)
      | Some ref \<Rightarrow>
          (let overrides = isNonEmptyString (optProp profile field);
               st1 = (if overrides
                      then st\<lparr> warnings := warnings st
                                  @ [credentialWarning agentDir profileId field refField (nextAddr st)],
                               nextAddr := Suc (nextAddr st) \<rparr>
                      else st)
           in warnings (snd out) = warnings st1
              \<and> (case resolveSecretRefValue ext ref st1 of
                    (Inl e, s) \<Rightarrow> out = (Inl e, s)
                  | (Inr v, s) \<Rightarrow>
                      if isNonEmptyString v
                      then fst out = Inr (withProp profile field v)
                           \<and> optProp (withProp profile field v) field = v
                      else out = (Inl EmptyResolvedCredential, s))))"

definition credentialWarnings ::
  "Externals \<Rightarrow> string \<Rightarrow> string \<Rightarrow> string \<Rightarrow> string \<Rightarrow> 'a jv
     \<Rightarrow> (SecretResolverWarningCode \<times> string \<times> string) list" where
  "credentialWarnings ext agentDir profileId field refField profile =
     (if asSecretRef ext (optProp profile refField) \<noteq> None
         \<and> isNonEmptyString (optProp profile field)
      then [warningContent (credentialWarning agentDir profileId field refField 0)]
      else [])"

definition profileWarnings ::
  "Externals \<Rightarrow> string \<Rightarrow> string \<times> 'a jv \<Rightarrow> (SecretResolverWarningCode \<times> string \<times> string) list" where
  "profileWarnings ext agentDir entry =
     (if optProp (snd entry) ''type'' = JStr ''api_key''
      then credentialWarnings ext agentDir (fst entry) ''key'' ''keyRef'' (snd entry)
      else if optProp (snd entry) ''type'' = JStr ''token''
      then credentialWarnings ext agentDir (fst entry) ''token'' ''tokenRef'' (snd entry)
      else [])"

definition openrouterProfile :: "nat jv" where
  "openrouterProfile =
     JObj 2 False
       [(''type'', JStr ''api_key''), (''provider'', JStr ''openrouter''),
        (''key'', JStr ''plaintext''),
        (''keyRef'', JObj 3 False [(''source'', JStr ''env''), (''id'', JStr ''X'')])]"

definition anthropicProfile :: "nat jv" where
  "anthropicProfile =
     JObj 4 False
       [(''type'', JStr ''token''), (''provider'', JStr ''anthropic''),
        (''tokenRef'', JObj 5 False [(''source'', JStr ''env''), (''id'', JStr ''ACME_KEY'')])]"

definition codexProfile :: "nat jv" where
  "codexProfile =
     JObj 6 False
       [(''type'', JStr ''oauth''), (''provider'', JStr ''openai-codex''),
        (''access'', JStr ''oauth-access''),
        (''keyRef'', JObj 7 False [(''source'', JStr ''env''), (''id'', JStr ''X'')])]"

definition exampleStoreProfiles :: "(string \<times> nat jv) list" where
  "exampleStoreProfiles =
     [(''openrouter:default'', openrouterProfile),
      (''anthropic:default'', anthropicProfile),
      (''openai-codex:default'', codexProfile)]"

definition exampleStore :: "nat jv" where
  "exampleStore =
     JObj 0 False [(''version'', JNum 1), (''profiles'', JObj 1 False exampleStoreProfiles)]"

definition exampleStoreResolved :: "nat jv" where
  "exampleStoreResolved =
     JObj 40 False
       [(''version'', JNum 1),
        (''profiles'', JObj 41 False
           [(''openrouter:default'', JObj 42 False
               [(''type'', JStr ''api_key''), (''provider'', JStr ''openrouter''),
                (''key'', JStr ''resolved''),
                (''keyRef'', JObj 43 False [(''source'', JStr ''env''), (''id'', JStr ''X'')])]),
            (''anthropic:default'', JObj 44 False
               [(''type'', JStr ''token''), (''provider'', JStr ''anthropic''),
                (''tokenRef'', JObj 45 False [(''source'', JStr ''env''), (''id'', JStr ''ACME_KEY'')]),
                (''token'', JStr ''secret123'')]),
            (''openai-codex:default'', JObj 46 False
               [(''type'', JStr ''oauth''), (''provider'', JStr ''openai-codex''),
                (''access'', JStr ''oauth-access''),
                (''keyRef'', JObj 47 False [(''source'', JStr ''env''), (''id'', JStr ''X'')])])])]"

fun assignAt :: "nat \<Rightarrow> string \<Rightarrow> nat jv \<Rightarrow> nat jv \<Rightarrow> nat jv"
  and assignAtProps :: "nat \<Rightarrow> string \<Rightarrow> nat jv \<Rightarrow> (string \<times> nat jv) list \<Rightarrow> (string \<times> nat jv) list"
where
  "assignAt a k v (JObj b arr kvs) =
     JObj b arr (if b = a then AList.update k v (assignAtProps a k v kvs)
                 else assignAtProps a k v kvs)"
| "assignAt a k v JUndefined = JUndefined"
| "assignAt a k v JNull = JNull"
| "assignAt a k v (JBool x) = JBool x"
| "assignAt a k v (JNum i) = JNum i"
| "assignAt a k v (JStr s) = JStr s"
| "assignAtProps a k v [] = []"
| "assignAtProps a k v (kv # kvs) = (fst kv, assignAt a k v (snd kv)) # assignAtProps a k v kvs"

definition assignInSnapshot ::
  "nat \<Rightarrow> string \<Rightarrow> nat jv \<Rightarrow> PreparedSecretsRuntimeSnapshot \<Rightarrow> PreparedSecretsRuntimeSnapshot" where
  "assignInSnapshot a k v s =
     s\<lparr> snap_sourceConfig := assignAt a k v (snap_sourceConfig s),
        snap_config := assignAt a k v (snap_config s),
        snap_authStores :=
          map (\<lambda>e. e\<lparr>entry_store := assignAt a k v (entry_store e)\<rparr>) (snap_authStores s) \<rparr>"

definition exampleSnapshot :: PreparedSecretsRuntimeSnapshot where
  "exampleSnapshot =
     \<lparr> snap_addr = 60,
       snap_sourceConfig = acmeConfig,
       snap_config = acmeConfigResolved,
       snap_authStoresAddr = 50,
       snap_authStores =
         [\<lparr> entry_addr = 51, entry_agentDir = ''main'', entry_store = exampleStoreResolved \<rparr>],
       snap_warningsAddr = 29,
       snap_warnings = [credentialWarning ''main'' ''openrouter:default'' ''key'' ''keyRef'' 48] \<rparr>"

definition emptyRuntime :: Runtime where
  "emptyRuntime =
     \<lparr> activeSnapshot = None, runtimeConfigSnapshot = None,
       runtimeAuthProfileStoreSnapshots = [], heapNext = 100 \<rparr>"

definition allocatedIn :: "nat \<Rightarrow> nat \<Rightarrow> nat jv \<Rightarrow> bool" where
  "allocatedIn b n v \<longleftrightarrow> (\<forall>x\<in>set_jv v. b \<le> x \<and> x < n)"

definition passInv :: "nat \<Rightarrow> Pass \<Rightarrow> bool" where
  "passInv b s \<longleftrightarrow>
     b \<le> nextAddr s
     \<and> (\<forall>x\<in>set (assigned s). b \<le> x \<and> x < nextAddr s)
     \<and> (\<forall>w\<in>set (warnings s). b \<le> w_addr w \<and> w_addr w < nextAddr s)
     \<and> (\<forall>payload. fileSecretsPromise (resolverContext s) = Some (Inr payload)
           \<longrightarrow> allocatedIn b (nextAddr s) payload)"

definition pointerKeepsIdentity :: "Externals \<Rightarrow> bool" where
  "pointerKeepsIdentity ext \<longleftrightarrow>
     (\<forall>payload pointer v. readJsonPointer ext payload pointer = Inr v
        \<longrightarrow> set_jv v \<subseteq> set_jv payload)"

definition acmeParams :: PrepareParams where
  "acmeParams =
     \<lparr> p_config = acmeConfig, p_env = Some exampleEnv, p_agentDirs = Some [''main'', ''main''],
       p_loadAuthStore = Some (\<lambda>_. exampleStore) \<rparr>"

definition paramsEnv :: "Externals \<Rightarrow> PrepareParams \<Rightarrow> (string \<rightharpoonup> string)" where
  "paramsEnv ext params = (case p_env params of Some e \<Rightarrow> e | None \<Rightarrow> processEnv ext)"

definition acmeSnapshot :: PreparedSecretsRuntimeSnapshot where
  "acmeSnapshot =
     \<lparr> snap_addr = 34,
       snap_sourceConfig =
         JObj 28 False
           [(''models'', JObj 29 False
              [(''providers'', JObj 30 False
                 [(''acme'', JObj 31 False
                     [(''apiKey'', JObj 32 False [(''source'', JStr ''env''), (''id'', JStr ''ACME_KEY'')])]),
                  (''local'', JObj 33 False
                     [(''apiKey'', JStr ''sk-plain''), (''baseUrl'', JStr ''http://localhost'')])])])],
       snap_config =
         JObj 11 False
           [(''models'', JObj 12 False
              [(''providers'', JObj 13 False
                 [(''acme'', JObj 14 False [(''apiKey'', JStr ''secret123'')]),
                  (''local'', JObj 16 False
                     [(''apiKey'', JStr ''sk-plain''), (''baseUrl'', JStr ''http://localhost'')])])])],
       snap_authStoresAddr = 17,
       snap_authStores =
         [\<lparr> entry_addr = 27, entry_agentDir = ''main'',
            entry_store =
              JObj 18 False
                [(''version'', JNum 1),
                 (''profiles'', JObj 19 False
                    [(''openrouter:default'', JObj 20 False
                        [(''type'', JStr ''api_key''), (''provider'', JStr ''openrouter''),
                         (''key'', JStr ''resolved''),
                         (''keyRef'', JObj 21 False [(''source'', JStr ''env''), (''id'', JStr ''X'')])]),
                     (''anthropic:default'', JObj 22 False
                        [(''type'', JStr ''token''), (''provider'', JStr ''anthropic''),
                         (''tokenRef'', JObj 23 False [(''source'', JStr ''env''), (''id'', JStr ''ACME_KEY'')]),
                         (''token'', JStr ''secret123'')]),
                     (''openai-codex:default'', JObj 24 False
                        [(''type'', JStr ''oauth''), (''provider'', JStr ''openai-codex''),
                         (''access'', JStr ''oauth-access''),
                         (''keyRef'', JObj 25 False [(''source'', JStr ''env''), (''id'', JStr ''X'')])])])] \<rparr>],
       snap_warningsAddr = 10,
       snap_warnings = [credentialWarning ''main'' ''openrouter:default'' ''key'' ''keyRef'' 26] \<rparr>"

definition apiKeyOf :: "'a jv \<Rightarrow> string \<Rightarrow> 'a jv" where
  "apiKeyOf config providerId =
     optProp (optProp (optProp (optProp config ''models'') ''providers'') providerId) ''apiKey''"

definition later :: "Pass \<Rightarrow> Pass \<Rightarrow> bool" where
  "later s t \<longleftrightarrow>
     ctx_config (resolverContext t) = ctx_config (resolverContext s)
     \<and> ctx_env (resolverContext t) = ctx_env (resolverContext s)
     \<and> (case fileSecretsPromise (resolverContext s) of
          None \<Rightarrow> True
        | Some p \<Rightarrow> fileSecretsPromise (resolverContext t) = Some p)"

definition succeeded :: "(error + 'a) \<times> Pass \<Rightarrow> bool" where
  "succeeded out = (case fst out of Inl _ \<Rightarrow> False | Inr _ \<Rightarrow> True)"

definition resolves :: "Externals \<Rightarrow> Pass \<Rightarrow> SecretRef \<Rightarrow> bool" where
  "resolves ext s ref =
     (case fst (resolveSecretRefValue ext ref s) of Inl _ \<Rightarrow> False | Inr _ \<Rightarrow> True)"

definition resolvesToString :: "Externals \<Rightarrow> Pass \<Rightarrow> SecretRef \<Rightarrow> bool" where
  "resolvesToString ext s ref =
     (case fst (resolveSecretRefValue ext ref s) of Inl _ \<Rightarrow> False | Inr v \<Rightarrow> isNonEmptyString v)"

definition isObject :: "'a jv \<Rightarrow> bool" where
  "isObject v = (case v of JObj _ _ _ \<Rightarrow> True | _ \<Rightarrow> False)"

definition providerKeyResolves :: "Externals \<Rightarrow> Pass \<Rightarrow> string \<times> 'a jv \<Rightarrow> bool" where
  "providerKeyResolves ext s entry \<longleftrightarrow>
     snd entry \<noteq> JNull \<and> snd entry \<noteq> JUndefined
     \<and> (case asSecretRef ext (optProp (snd entry) ''apiKey'') of
          None \<Rightarrow> True
        | Some ref \<Rightarrow> isObject (snd entry) \<and> resolvesToString ext s ref)"

definition providerResolved ::
  "Externals \<Rightarrow> Pass \<Rightarrow> string \<times> nat jv \<Rightarrow> string \<times> nat jv \<Rightarrow> bool" where
  "providerResolved ext s entry entry' \<longleftrightarrow>
     fst entry' = fst entry
     \<and> (case asSecretRef ext (optProp (snd entry) ''apiKey'') of
          None \<Rightarrow> deepEqual (snd entry') (snd entry)
        | Some ref \<Rightarrow>
            isNonEmptyString (optProp (snd entry') ''apiKey'')
            \<and> fst (resolveSecretRefValue ext ref s) = Inr (optProp (snd entry') ''apiKey'')
            \<and> deepEqual (snd entry')
                 (withProp (snd entry) ''apiKey'' (optProp (snd entry') ''apiKey'')))"

definition chosenRef :: "Externals \<Rightarrow> 'a jv \<Rightarrow> SecretRef option" where
  "chosenRef ext target =
     (case asSecretRef ext (optProp target ''serviceAccountRef'') of
        Some explicitRef \<Rightarrow> Some explicitRef
      | None \<Rightarrow> asSecretRef ext (optProp target ''serviceAccount''))"

definition serviceAccountResolved :: "Externals \<Rightarrow> Pass \<Rightarrow> 'a jv \<Rightarrow> nat jv \<Rightarrow> bool" where
  "serviceAccountResolved ext s target target' \<longleftrightarrow>
     (case chosenRef ext target of
        None \<Rightarrow> deepEqual (optProp target' ''serviceAccount'') (optProp target ''serviceAccount'')
      | Some ref \<Rightarrow>
          fst (resolveSecretRefValue ext ref s) = Inr (optProp target' ''serviceAccount''))"

definition accountResolved ::
  "Externals \<Rightarrow> Pass \<Rightarrow> string \<times> 'a jv \<Rightarrow> string \<times> nat jv \<Rightarrow> bool" where
  "accountResolved ext s entry entry' \<longleftrightarrow>
     fst entry' = fst entry
     \<and> (if isRecord (snd entry) then serviceAccountResolved ext s (snd entry) (snd entry')
        else deepEqual (snd entry') (snd entry))"

definition googleChatResolved :: "Externals \<Rightarrow> Pass \<Rightarrow> 'a jv \<Rightarrow> nat jv \<Rightarrow> bool" where
  "googleChatResolved ext s googleChat googleChat' \<longleftrightarrow>
     serviceAccountResolved ext s googleChat googleChat'
     \<and> list_all2 (accountResolved ext s)
          (googleChatAccountEntries googleChat) (googleChatAccountEntries googleChat')"

definition serviceAccountResolves :: "Externals \<Rightarrow> Pass \<Rightarrow> 'a jv \<Rightarrow> bool" where
  "serviceAccountResolves ext s target \<longleftrightarrow>
     (case chosenRef ext target of
        None \<Rightarrow> True
      | Some ref \<Rightarrow> isObject target \<and> resolves ext s ref)"

definition accountResolves :: "Externals \<Rightarrow> Pass \<Rightarrow> string \<times> 'a jv \<Rightarrow> bool" where
  "accountResolves ext s entry \<longleftrightarrow>
     (if isRecord (snd entry) then serviceAccountResolves ext s (snd entry) else True)"

definition googleChatResolves :: "Externals \<Rightarrow> Pass \<Rightarrow> 'a jv \<Rightarrow> bool" where
  "googleChatResolves ext s config \<longleftrightarrow>
     (let googleChat = optProp (optProp config ''channels'') ''googlechat''
      in if \<not> truthy googleChat then True
         else serviceAccountResolves ext s googleChat
              \<and> list_all (accountResolves ext s) (googleChatAccountEntries googleChat))"

definition chatConfig :: "nat jv" where
  "chatConfig =
     JObj 0 False
       [(''secrets'', JObj 1 False
          [(''sources'', JObj 2 False
             [(''file'', JObj 3 False
                [(''type'', JStr ''sops''), (''path'', JStr ''secrets.enc.json'')])])]),
        (''channels'', JObj 4 False
          [(''googlechat'', JObj 5 False
             [(''serviceAccountRef'', JObj 6 False [(''source'', JStr ''env''), (''id'', JStr ''GC_SA'')]),
              (''serviceAccount'', JObj 7 False [(''source'', JStr ''env''), (''id'', JStr ''ACME_KEY'')]),
              (''accounts'', JObj 8 False
                 [(''a'', JObj 9 False
                     [(''serviceAccount'', JObj 10 False [(''source'', JStr ''env''), (''id'', JStr ''X'')])]),
                  (''b'', JStr ''skipped''),
                  (''c'', JObj 11 False
                     [(''serviceAccountRef'', JObj 12 False [(''source'', JStr ''env''), (''id'', JStr ''X'')]),
                      (''serviceAccount'', JNull)]),
                  (''d'', JObj 13 False
                     [(''serviceAccountRef'', JObj 14 False [(''source'', JStr ''file''), (''id'', JStr ''/token'')]),
                      (''serviceAccount'', JObj 15 False [(''source'', JStr ''env''), (''id'', JStr ''ACME_KEY'')])]),
                  (''e'', JObj 16 False
                     [(''serviceAccountRef'', JObj 17 False [(''source'', JStr ''env''), (''id'', JStr ''ACME_KEY'')]),
                      (''serviceAccount'', JStr ''plaintext'')])])])])]"

definition vaultKeyConfig :: "nat jv" where
  "vaultKeyConfig =
     JObj 0 False
       [(''secrets'', JObj 1 False
          [(''sources'', JObj 2 False
             [(''file'', JObj 3 False
                [(''type'', JStr ''sops''), (''path'', JStr ''secrets.enc.json'')])])]),
        (''models'', JObj 4 False
          [(''providers'', JObj 5 False
             [(''acme'', JObj 6 False
                 [(''apiKey'', JObj 7 False [(''source'', JStr ''env''), (''id'', JStr ''ACME_KEY'')])]),
              (''vault'', JObj 8 False
                 [(''apiKey'', JObj 9 False [(''source'', JStr ''file''), (''id'', JStr ''/key'')]),
                  (''baseUrl'', JStr ''https://vault.example'')]),
              (''local'', JObj 10 False [(''apiKey'', JStr ''sk-plain'')])])])]"

definition chatConfigResolved :: "nat jv" where
  "chatConfigResolved =
     JObj 40 False
       [(''secrets'', JObj 41 False
          [(''sources'', JObj 42 False
             [(''file'', JObj 43 False
                [(''type'', JStr ''sops''), (''path'', JStr ''secrets.enc.json'')])])]),
        (''channels'', JObj 44 False
          [(''googlechat'', JObj 45 False
             [(''serviceAccountRef'', JObj 46 False [(''source'', JStr ''env''), (''id'', JStr ''GC_SA'')]),
              (''serviceAccount'', JStr ''resolved''),
              (''accounts'', JObj 48 False
                 [(''a'', JObj 49 False [(''serviceAccount'', JStr ''resolved'')]),
                  (''b'', JStr ''skipped''),
                  (''c'', JObj 51 False
                     [(''serviceAccountRef'', JObj 52 False [(''source'', JStr ''env''), (''id'', JStr ''X'')]),
                      (''serviceAccount'', JStr ''resolved'')]),
                  (''d'', JObj 53 False
                     [(''serviceAccountRef'', JObj 54 False [(''source'', JStr ''file''), (''id'', JStr ''/token'')]),
                      (''serviceAccount'', JStr ''t0p'')]),
                  (''e'', JObj 56 False
                     [(''serviceAccountRef'', JObj 57 False [(''source'', JStr ''env''), (''id'', JStr ''ACME_KEY'')]),
                      (''serviceAccount'', JStr ''secret123'')])])])])]"

definition vaultKeyConfigResolved :: "nat jv" where
  "vaultKeyConfigResolved =
     JObj 40 False
       [(''secrets'', JObj 41 False
          [(''sources'', JObj 42 False
             [(''file'', JObj 43 False
                [(''type'', JStr ''sops''), (''path'', JStr ''secrets.enc.json'')])])]),
        (''models'', JObj 44 False
          [(''providers'', JObj 45 False
             [(''acme'', JObj 46 False [(''apiKey'', JStr ''secret123'')]),
              (''vault'', JObj 48 False
                 [(''apiKey'', JStr ''k3y''), (''baseUrl'', JStr ''https://vault.example'')]),
              (''local'', JObj 50 False [(''apiKey'', JStr ''sk-plain'')])])])]"

definition vaultProvider :: "nat jv" where
  "vaultProvider =
     JObj 8 False
       [(''apiKey'', JObj 9 False [(''source'', JStr ''file''), (''id'', JStr ''/key'')]),
        (''baseUrl'', JStr ''https://vault.example'')]"

definition missingKeyConfig :: "nat jv" where
  "missingKeyConfig =
     JObj 0 False
       [(''models'', JObj 1 False
          [(''providers'', JObj 2 False
             [(''acme'', JObj 3 False
                 [(''apiKey'', JObj 4 False [(''source'', JStr ''env''), (''id'', JStr ''ACME_KEY'')])]),
              (''ghost'', JObj 5 False
                 [(''apiKey'', JObj 6 False [(''source'', JStr ''env''), (''id'', JStr ''UNSET'')])])])])]"

definition fieldResolved :: "Externals \<Rightarrow> Pass \<Rightarrow> string \<Rightarrow> string \<Rightarrow> nat jv \<Rightarrow> nat jv \<Rightarrow> bool" where
  "fieldResolved ext s refField field p p' \<longleftrightarrow>
     (case asSecretRef ext (optProp p refField) of
        None \<Rightarrow> deepEqual p' p
      | Some ref \<Rightarrow>
          isNonEmptyString (optProp p' field)
          \<and> fst (resolveSecretRefValue ext ref s) = Inr (optProp p' field)
          \<and> deepEqual p' (withProp p field (optProp p' field)))"

definition profileResolved ::
  "Externals \<Rightarrow> Pass \<Rightarrow> string \<times> nat jv \<Rightarrow> string \<times> nat jv \<Rightarrow> bool" where
  "profileResolved ext s entry entry' \<longleftrightarrow>
     fst entry' = fst entry
     \<and> (if optProp (snd entry) ''type'' = JStr ''api_key''
        then fieldResolved ext s ''keyRef'' ''key'' (snd entry) (snd entry')
        else if optProp (snd entry) ''type'' = JStr ''token''
        then fieldResolved ext s ''tokenRef'' ''token'' (snd entry) (snd entry')
        else deepEqual (snd entry') (snd entry))"

definition credentialResolves :: "Externals \<Rightarrow> Pass \<Rightarrow> string \<Rightarrow> 'a jv \<Rightarrow> bool" where
  "credentialResolves ext s refField p \<longleftrightarrow>
     (case asSecretRef ext (optProp p refField) of
        None \<Rightarrow> True
      | Some ref \<Rightarrow> resolvesToString ext s ref)"

definition profileResolves :: "Externals \<Rightarrow> Pass \<Rightarrow> string \<times> 'a jv \<Rightarrow> bool" where
  "profileResolves ext s entry \<longleftrightarrow>
     snd entry \<noteq> JNull \<and> snd entry \<noteq> JUndefined
     \<and> (if optProp (snd entry) ''type'' = JStr ''api_key''
        then credentialResolves ext s ''keyRef'' (snd entry)
        else if optProp (snd entry) ''type'' = JStr ''token''
        then credentialResolves ext s ''tokenRef'' (snd entry)
        else True)"

definition profileEntries :: "'a jv \<Rightarrow> (string \<times> 'a jv) list" where
  "profileEntries store =
     (case objectEntries (optProp store ''profiles'') of Inl _ \<Rightarrow> [] | Inr entries \<Rightarrow> entries)"

definition storeReadable :: "'a jv \<Rightarrow> bool" where
  "storeReadable store \<longleftrightarrow>
     store \<noteq> JNull \<and> store \<noteq> JUndefined
     \<and> optProp store ''profiles'' \<noteq> JNull \<and> optProp store ''profiles'' \<noteq> JUndefined"

definition vaultStore :: "nat jv" where
  "vaultStore =
     JObj 0 False
       [(''version'', JNum 1),
        (''profiles'', JObj 1 False
           [(''vault:default'', JObj 2 False
               [(''type'', JStr ''api_key''), (''provider'', JStr ''vault''),
                (''key'', JStr ''old-key''),
                (''keyRef'', JObj 3 False [(''source'', JStr ''file''), (''id'', JStr ''/key'')])])])]"

definition vaultStoreResolved :: "nat jv" where
  "vaultStoreResolved =
     JObj 40 False
       [(''version'', JNum 1),
        (''profiles'', JObj 41 False
           [(''vault:default'', JObj 42 False
               [(''type'', JStr ''api_key''), (''provider'', JStr ''vault''),
                (''key'', JStr ''k3y''),
                (''keyRef'', JObj 43 False [(''source'', JStr ''file''), (''id'', JStr ''/key'')])])])]"

definition brokenStore :: "nat jv" where
  "brokenStore =
     JObj 0 False
       [(''version'', JNum 1),
        (''profiles'', JObj 1 False
           [(''count:default'', JObj 2 False
               [(''type'', JStr ''token''), (''provider'', JStr ''count''),
                (''tokenRef'', JObj 3 False [(''source'', JStr ''file''), (''id'', JStr ''/count'')])])])]"

section \<open>Facts about the resolver\<close>

lemma dropWhile_all_iff: "(\<forall>x\<in>set (dropWhile P s). P x) \<longleftrightarrow> (\<forall>x\<in>set s. P x)"
  by (induction s) auto

lemma trim_Nil_iff: "trim s = [] \<longleftrightarrow> list_all isWhiteSpace s"
  by (simp add: trim_def list_all_iff dropWhile_eq_Nil_conv dropWhile_all_iff)

lemma decryptSopsFile_frame:
  "decryptSopsFile ext cfg st = (p, st') \<Longrightarrow>
   resolverContext st' = resolverContext st \<and> warnings st' = warnings st \<and> assigned st' = assigned st
   \<and> (sopsCalls st' = sopsCalls st \<or> sopsCalls st' = sopsCalls st @ [sopsRequestOf ext (fileSourceOf cfg)])"
  unfolding decryptSopsFile_def Let_def
  by (auto split: if_splits sum.splits prod.splits)

lemma ensure_cached:
  "fileSecretsPromise (resolverContext st) = Some p \<Longrightarrow> ensureFileSecrets ext st = (p, st)"
  by (simp add: ensureFileSecrets_def)

lemma ensure_uncached:
  "fileSecretsPromise (resolverContext st) = None \<Longrightarrow>
   decryptSopsFile ext (ctx_config (resolverContext st)) st = (p, st1) \<Longrightarrow>
   ensureFileSecrets ext st =
     (p, st1\<lparr>resolverContext := (resolverContext st)\<lparr>fileSecretsPromise := Some p\<rparr>\<rparr>)"
  using decryptSopsFile_frame[of ext "ctx_config (resolverContext st)" st p st1]
  by (simp add: ensureFileSecrets_def)

lemma resolve_file:
  "ref_source r = ''file'' \<Longrightarrow> trim (ref_id r) \<noteq> [] \<Longrightarrow>
   resolveSecretRefValue ext r st =
     (readFromPromise ext (fst (ensureFileSecrets ext st)) (trim (ref_id r)),
      snd (ensureFileSecrets ext st))"
  by (simp add: resolveSecretRefValue_def Let_def split: prod.splits)

lemma resolve_not_file:
  "ref_source r \<noteq> ''file'' \<or> trim (ref_id r) = [] \<Longrightarrow> snd (resolveSecretRefValue ext r st) = st"
  by (auto simp: resolveSecretRefValue_def Let_def)

lemma resolve_cached_state:
  "fileSecretsPromise (resolverContext st) = Some p \<Longrightarrow> snd (resolveSecretRefValue ext r st) = st"
  by (simp add: resolveSecretRefValue_def Let_def ensure_cached)

lemma resolve_calls:
  assumes a: "resolveSecretRefValue ext r st = (out, st')"
  shows "st' = st \<or> (fileSecretsPromise (resolverContext st) = None
               \<and> fileSecretsPromise (resolverContext st') \<noteq> None
               \<and> length (sopsCalls st') \<le> Suc (length (sopsCalls st)))"
proof (cases "fileSecretsPromise (resolverContext st)")
  case (Some p)
  with resolve_cached_state[OF Some, of ext r] a show ?thesis by simp
next
  case None
  obtain p st1 where d: "decryptSopsFile ext (ctx_config (resolverContext st)) st = (p, st1)"
    by (cases "decryptSopsFile ext (ctx_config (resolverContext st)) st")
  from decryptSopsFile_frame[OF d] have l: "length (sopsCalls st1) \<le> Suc (length (sopsCalls st))"
    by auto
  note e = ensure_uncached[OF None d]
  show ?thesis
  proof (cases "ref_source r = ''file'' \<and> trim (ref_id r) \<noteq> []")
    case True
    with a e resolve_file[of r ext st]
    have "st' = st1\<lparr>resolverContext := (resolverContext st)\<lparr>fileSecretsPromise := Some p\<rparr>\<rparr>"
      by simp
    with l None show ?thesis by simp
  next
    case False
    with a resolve_not_file[of r ext st] have "st' = st" by auto
    then show ?thesis by simp
  qed
qed

lemma sequence_calls:
  "length (sopsCalls (snd (resolveInSequence ext refs st)))
     \<le> length (sopsCalls st) + (if fileSecretsPromise (resolverContext st) = None then 1 else 0)"
proof (induction refs arbitrary: st)
  case Nil
  then show ?case by simp
next
  case (Cons r refs)
  obtain out st1 where r: "resolveSecretRefValue ext r st = (out, st1)"
    by (cases "resolveSecretRefValue ext r st")
  obtain outs st2 where s: "resolveInSequence ext refs st1 = (outs, st2)"
    by (cases "resolveInSequence ext refs st1")
  from Cons.IH[of st1] s have ih: "length (sopsCalls st2)
     \<le> length (sopsCalls st1) + (if fileSecretsPromise (resolverContext st1) = None then 1 else 0)"
    by simp
  from r s have fin: "snd (resolveInSequence ext (r # refs) st) = st2" by simp
  from resolve_calls[OF r] ih show ?case
    unfolding fin by (auto split: if_splits)
qed

lemma sequence_cached:
  "fileSecretsPromise (resolverContext st) = Some p \<Longrightarrow>
   \<forall>r\<in>set refs. ref_source r = ''file'' \<and> trim (ref_id r) \<noteq> [] \<Longrightarrow>
   resolveInSequence ext refs st = (map (\<lambda>r. readFromPromise ext p (trim (ref_id r))) refs, st)"
  by (induction refs) (simp_all add: resolve_file ensure_cached)

lemma sequence_file:
  assumes "refs \<noteq> []" and "\<forall>r\<in>set refs. ref_source r = ''file'' \<and> trim (ref_id r) \<noteq> []"
  shows "resolveInSequence ext refs st =
     (map (\<lambda>r. readFromPromise ext (fst (ensureFileSecrets ext st)) (trim (ref_id r))) refs,
      snd (ensureFileSecrets ext st))"
proof -
  obtain r rest where refs: "refs = r # rest" using assms(1) by (cases refs) auto
  obtain p st1 where e: "ensureFileSecrets ext st = (p, st1)" by (cases "ensureFileSecrets ext st")
  have slot: "fileSecretsPromise (resolverContext st1) = Some p"
  proof (cases "fileSecretsPromise (resolverContext st)")
    case None
    obtain q st0 where d: "decryptSopsFile ext (ctx_config (resolverContext st)) st = (q, st0)"
      by (cases "decryptSopsFile ext (ctx_config (resolverContext st)) st")
    from ensure_uncached[OF None d] e show ?thesis by auto
  next
    case (Some q)
    with ensure_cached[OF Some, of ext] e show ?thesis by simp
  qed
  from assms(2) refs have r: "ref_source r = ''file''" "trim (ref_id r) \<noteq> []"
    and rest: "\<forall>r\<in>set rest. ref_source r = ''file'' \<and> trim (ref_id r) \<noteq> []" by auto
  show ?thesis
    unfolding refs using resolve_file[OF r, of ext st] sequence_cached[OF slot rest, of ext] e
    by simp
qed

lemma resolve_env:
  "ref_source ref = ''env'' \<Longrightarrow>
   resolveSecretRefValue ext ref st =
     (if trim (ref_id ref) = [] then (Inl InvalidReference, st)
      else case ctx_env (resolverContext st) (trim (ref_id ref)) of
             None \<Rightarrow> (Inl MissingSecret, st)
           | Some v \<Rightarrow> if list_all isWhiteSpace v then (Inl MissingSecret, st)
                       else (Inr (JStr v), st))"
  by (simp add: resolveSecretRefValue_def Let_def isNonEmptyString_def envLookup_def trim_Nil_iff
      split: option.splits)

lemma newPass_sel:
  "ctx_config (resolverContext (newPass c e n)) = c"
  "ctx_env (resolverContext (newPass c e n)) = e"
  "fileSecretsPromise (resolverContext (newPass c e n)) = None"
  "warnings (newPass c e n) = []" "nextAddr (newPass c e n) = n"
  "sopsCalls (newPass c e n) = []" "assigned (newPass c e n) = []"
  by (simp_all add: newPass_def)

lemma testExternals_sel:
  "isSecretRef (testExternals d) = specIsSecretRef"
  "decryptSopsJsonFile (testExternals d) = d"
  "readJsonPointer (testExternals d) payload pointer =
     (case optProp payload (drop 1 pointer) of JUndefined \<Rightarrow> Inl MissingSecret | v \<Rightarrow> Inr v)"
  by (simp_all add: testExternals_def)

section \<open>The claims about the resolver\<close>

text \<open>Claim C1. A reference with source "env": when its id trims to the empty string the
  resolution fails with InvalidReference; otherwise, when the environment variable named by
  the trimmed id is absent, empty or made of white space only, it fails with MissingSecret;
  otherwise it returns the variable's value as it stands, untrimmed. The state is left as
  it was in every case.\<close>

theorem env_reference_resolution:
  assumes "ref_source ref = ''env''"
  shows "resolveSecretRefValue ext ref st =
     (if trim (ref_id ref) = [] then (Inl InvalidReference, st)
      else case ctx_env (resolverContext st) (trim (ref_id ref)) of
             None \<Rightarrow> (Inl MissingSecret, st)
           | Some v \<Rightarrow> if list_all isWhiteSpace v then (Inl MissingSecret, st)
                       else (Inr (JStr v), st))"
  using assms by (rule resolve_env)

theorem env_reference_resolution_witness:
  "resolveSecretRefValue (testExternals (\<lambda>_. Inr sopsPayload)) \<lparr>ref_source = ''env'', ref_id = '' ACME_KEY ''\<rparr>
     (newPass JNull [''ACME_KEY'' \<mapsto> '' secret123 ''] 0)
   = (Inr (JStr '' secret123 ''), newPass JNull [''ACME_KEY'' \<mapsto> '' secret123 ''] 0)"
  using env_reference_resolution[of "\<lparr>ref_source = ''env'', ref_id = '' ACME_KEY ''\<rparr>"
      "testExternals (\<lambda>_. Inr sopsPayload)" "newPass JNull [''ACME_KEY'' \<mapsto> '' secret123 ''] 0"]
  by (simp add: trim_def isWhiteSpace_def newPass_def)

text \<open>Claim C10. A reference whose id trims to the empty string fails with InvalidReference
  whatever its source is, and the state is left untouched: for source "file" no decrypt is
  started and nothing is cached, and for an unsupported source the UnsupportedSource
  failure is not reached.\<close>

theorem empty_id_rejected:
  assumes "trim (ref_id ref) = []"
  shows "resolveSecretRefValue ext ref st = (Inl InvalidReference, st)"
  using assms by (simp add: resolveSecretRefValue_def)

theorem empty_id_rejected_witness:
  "resolveSecretRefValue (testExternals (\<lambda>_. Inr sopsPayload))
       \<lparr>ref_source = ''file'', ref_id = ''  ''\<rparr> (newPass sopsConfig Map.empty 4)
     = (Inl InvalidReference, newPass sopsConfig Map.empty 4)
   \<and> resolveSecretRefValue (testExternals (\<lambda>_. Inr sopsPayload))
       \<lparr>ref_source = ''vault'', ref_id = []\<rparr> (newPass sopsConfig Map.empty 4)
     = (Inl InvalidReference, newPass sopsConfig Map.empty 4)"
  using empty_id_rejected[of "\<lparr>ref_source = ''file'', ref_id = ''  ''\<rparr>"
          "testExternals (\<lambda>_. Inr sopsPayload)" "newPass sopsConfig Map.empty 4"]
        empty_id_rejected[of "\<lparr>ref_source = ''vault'', ref_id = []\<rparr>"
          "testExternals (\<lambda>_. Inr sopsPayload)" "newPass sopsConfig Map.empty 4"]
  by (simp add: trim_def isWhiteSpace_def)

text \<open>Claim C2. Resolving a sequence of file-sourced references (each with an id that is not
  empty after trimming) in one context: with an empty cache slot, the whole sequence amounts
  to one run of \<open>decryptSopsFile\<close>, which starts the external decrypt at most once and
  whose outcome is installed in the slot, every reference being answered from that one
  outcome (its payload, or its failure); with a filled slot, every reference is answered from
  the cached outcome and the state does not change. And whatever the references of a
  sequence are, the external decrypt is started at most once in a context whose slot was
  empty, and not at all in one whose slot was filled.\<close>

theorem single_flight_decrypt:
  assumes "refs \<noteq> []"
    and "\<forall>r\<in>set refs. ref_source r = ''file'' \<and> trim (ref_id r) \<noteq> []"
  shows "(case fileSecretsPromise (resolverContext st) of
            None \<Rightarrow>
              (case decryptSopsFile ext (ctx_config (resolverContext st)) st of
                 (p, st1) \<Rightarrow>
                   resolveInSequence ext refs st =
                     (map (\<lambda>r. readFromPromise ext p (trim (ref_id r))) refs,
                      st1\<lparr>resolverContext := (resolverContext st)\<lparr>fileSecretsPromise := Some p\<rparr>\<rparr>)
                   \<and> length (sopsCalls st1) \<le> Suc (length (sopsCalls st)))
          | Some p \<Rightarrow>
              resolveInSequence ext refs st =
                (map (\<lambda>r. readFromPromise ext p (trim (ref_id r))) refs, st))
       \<and> (\<forall>others st0.
             length (sopsCalls (snd (resolveInSequence ext others st0)))
               \<le> length (sopsCalls st0)
                   + (if fileSecretsPromise (resolverContext st0) = None then 1 else 0))"
proof (intro conjI allI)
  show "case fileSecretsPromise (resolverContext st) of
            None \<Rightarrow>
              (case decryptSopsFile ext (ctx_config (resolverContext st)) st of
                 (p, st1) \<Rightarrow>
                   resolveInSequence ext refs st =
                     (map (\<lambda>r. readFromPromise ext p (trim (ref_id r))) refs,
                      st1\<lparr>resolverContext := (resolverContext st)\<lparr>fileSecretsPromise := Some p\<rparr>\<rparr>)
                   \<and> length (sopsCalls st1) \<le> Suc (length (sopsCalls st)))
          | Some p \<Rightarrow>
              resolveInSequence ext refs st =
                (map (\<lambda>r. readFromPromise ext p (trim (ref_id r))) refs, st)"
  proof (cases "fileSecretsPromise (resolverContext st)")
    case None
    obtain p st1 where d: "decryptSopsFile ext (ctx_config (resolverContext st)) st = (p, st1)"
      by (cases "decryptSopsFile ext (ctx_config (resolverContext st)) st")
    from decryptSopsFile_frame[OF d] have "length (sopsCalls st1) \<le> Suc (length (sopsCalls st))"
      by auto
    with sequence_file[OF assms, of ext st] ensure_uncached[OF None d] None d show ?thesis
      by simp
  next
    case (Some p)
    with sequence_cached[OF Some assms(2), of ext] show ?thesis by simp
  qed
next
  fix others st0
  show "length (sopsCalls (snd (resolveInSequence ext others st0)))
               \<le> length (sopsCalls st0)
                   + (if fileSecretsPromise (resolverContext st0) = None then 1 else 0)"
    by (rule sequence_calls)
qed

lemma sopsConfig_fileSource:
  "fileSourceOf sopsConfig = JObj 3 False [(''type'', JStr ''sops''), (''path'', JStr ''secrets.enc.json'')]"
  by (simp add: fileSourceOf_def sopsConfig_def optProp_def)

lemma sopsConfig_decrypt:
  "decryptSopsFile (testExternals (\<lambda>_. Inr sopsPayload)) sopsConfig (newPass sopsConfig Map.empty 10)
   = (Inr (JObj 10 False [(''token'', JStr ''t0p''), (''key'', JStr ''k3y'')]),
      (newPass sopsConfig Map.empty 10)
        \<lparr>sopsCalls := [\<lparr>req_path = ''secrets.enc.json'', req_timeoutMs = 5000\<rparr>], nextAddr := 11\<rparr>)"
  by (simp add: decryptSopsFile_def sopsConfig_fileSource truthy_def optProp_def sopsRequestOf_def
      testExternals_def sopsPayload_def newPass_def Let_def)

theorem single_flight_decrypt_witness:
  "resolveInSequence (testExternals (\<lambda>_. Inr sopsPayload))
     [\<lparr>ref_source = ''file'', ref_id = ''/token''\<rparr>, \<lparr>ref_source = ''file'', ref_id = ''/key ''\<rparr>,
      \<lparr>ref_source = ''file'', ref_id = ''/none''\<rparr>]
     (newPass sopsConfig Map.empty 10)
   = ([Inr (JStr ''t0p''), Inr (JStr ''k3y''), Inl MissingSecret],
      (newPass sopsConfig Map.empty 10)
        \<lparr>sopsCalls := [\<lparr>req_path = ''secrets.enc.json'', req_timeoutMs = 5000\<rparr>], nextAddr := 11,
          resolverContext :=
            \<lparr>ctx_config = sopsConfig, ctx_env = Map.empty,
             fileSecretsPromise =
               Some (Inr (JObj 10 False [(''token'', JStr ''t0p''), (''key'', JStr ''k3y'')]))\<rparr>\<rparr>)"
  using single_flight_decrypt[where
      refs = "[\<lparr>ref_source = ''file'', ref_id = ''/token''\<rparr>, \<lparr>ref_source = ''file'', ref_id = ''/key ''\<rparr>,
        \<lparr>ref_source = ''file'', ref_id = ''/none''\<rparr>]"
      and st = "newPass sopsConfig Map.empty 10" and ext = "testExternals (\<lambda>_. Inr sopsPayload)"]
  by (simp add: newPass_sel sopsConfig_decrypt trim_def isWhiteSpace_def readFromPromise_def
        testExternals_sel optProp_def)

text \<open>Claim C9. A file-sourced reference with an id that is not empty after trimming, in a
  context whose cache slot is empty or holds the outcome of \<open>decryptSopsFile\<close> for the
  context's configuration: the resolution fails with NotConfigured when no file source is
  configured, with UnsupportedSourceType when one is configured with a type other than
  "sops", and the external decrypt is not called in either case.\<close>

theorem file_source_not_configured:
  assumes "ref_source ref = ''file''" and "trim (ref_id ref) \<noteq> []"
    and "fileSecretsPromise (resolverContext st) = None
         \<or> (\<exists>st0. fileSecretsPromise (resolverContext st)
                    = Some (fst (decryptSopsFile ext (ctx_config (resolverContext st)) st0)))"
    and "\<not> truthy (fileSourceOf (ctx_config (resolverContext st)))
         \<or> optProp (fileSourceOf (ctx_config (resolverContext st))) ''type'' \<noteq> JStr ''sops''"
  shows "fst (resolveSecretRefValue ext ref st) =
           Inl (if \<not> truthy (fileSourceOf (ctx_config (resolverContext st)))
                then NotConfigured else UnsupportedSourceType)
       \<and> sopsCalls (snd (resolveSecretRefValue ext ref st)) = sopsCalls st"
proof -
  let ?cfg = "ctx_config (resolverContext st)"
  let ?e = "if \<not> truthy (fileSourceOf ?cfg) then NotConfigured else UnsupportedSourceType"
  have d: "decryptSopsFile ext ?cfg s = (Inl ?e, s)" for s
    using assms(4) by (auto simp: decryptSopsFile_def Let_def)
  have "fst (ensureFileSecrets ext st) = Inl ?e
      \<and> sopsCalls (snd (ensureFileSecrets ext st)) = sopsCalls st"
  proof (cases "fileSecretsPromise (resolverContext st)")
    case None
    from ensure_uncached[OF None d] show ?thesis by simp
  next
    case (Some p)
    with assms(3) d have "p = Inl ?e" by auto
    with ensure_cached[OF Some, of ext] show ?thesis by simp
  qed
  then show ?thesis
    unfolding resolve_file[OF assms(1,2)] by (simp add: readFromPromise_def)
qed

theorem file_source_not_configured_witness:
  "resolveSecretRefValue (testExternals (\<lambda>_. Inr sopsPayload))
       \<lparr>ref_source = ''file'', ref_id = ''/token''\<rparr> (newPass plainConfig Map.empty 4)
     = (Inl NotConfigured,
        (newPass plainConfig Map.empty 4)
          \<lparr>resolverContext := \<lparr>ctx_config = plainConfig, ctx_env = Map.empty,
                                 fileSecretsPromise = Some (Inl NotConfigured)\<rparr>\<rparr>)
   \<and> resolveSecretRefValue (testExternals (\<lambda>_. Inr sopsPayload))
       \<lparr>ref_source = ''file'', ref_id = ''/token''\<rparr> (newPass vaultConfig Map.empty 4)
     = (Inl UnsupportedSourceType,
        (newPass vaultConfig Map.empty 4)
          \<lparr>resolverContext := \<lparr>ctx_config = vaultConfig, ctx_env = Map.empty,
                                 fileSecretsPromise = Some (Inl UnsupportedSourceType)\<rparr>\<rparr>)"
  using file_source_not_configured[where ref = "\<lparr>ref_source = ''file'', ref_id = ''/token''\<rparr>"
          and st = "newPass plainConfig Map.empty 4" and ext = "testExternals (\<lambda>_. Inr sopsPayload)"]
        file_source_not_configured[where ref = "\<lparr>ref_source = ''file'', ref_id = ''/token''\<rparr>"
          and st = "newPass vaultConfig Map.empty 4" and ext = "testExternals (\<lambda>_. Inr sopsPayload)"]
  by (simp add: trim_def isWhiteSpace_def newPass_def plainConfig_def vaultConfig_def fileSourceOf_def optProp_def
        truthy_def resolveSecretRefValue_def ensureFileSecrets_def decryptSopsFile_def
        readFromPromise_def Let_def)

section \<open>Facts about the walks\<close>

lemma andThen_Inr [simp]: "andThen (Inr x, st) f = f x st"
  by (simp add: andThen_def)

lemma andThen_Inl [simp]: "andThen (Inl e, st) f = (Inl e, st)"
  by (simp add: andThen_def)

lemma andThen_eq_Inr:
  "andThen m f = (Inr y, st') \<longleftrightarrow> (\<exists>x st1. m = (Inr x, st1) \<and> f x st1 = (Inr y, st'))"
  by (cases m; cases "fst m") (auto simp: andThen_def)

lemma resolve_frame:
  assumes "resolveSecretRefValue ext r st = (out, st')"
  shows "warnings st' = warnings st" and "assigned st' = assigned st"
    and "ctx_config (resolverContext st') = ctx_config (resolverContext st)"
    and "ctx_env (resolverContext st') = ctx_env (resolverContext st)"
proof -
  have "warnings st' = warnings st \<and> assigned st' = assigned st
      \<and> ctx_config (resolverContext st') = ctx_config (resolverContext st)
      \<and> ctx_env (resolverContext st') = ctx_env (resolverContext st)"
  proof (cases "fileSecretsPromise (resolverContext st) = None
      \<and> ref_source r = ''file'' \<and> trim (ref_id r) \<noteq> []")
    case True
    obtain p st1 where d: "decryptSopsFile ext (ctx_config (resolverContext st)) st = (p, st1)"
      by (cases "decryptSopsFile ext (ctx_config (resolverContext st)) st")
    from True ensure_uncached[OF _ d] resolve_file[of r ext st] assms decryptSopsFile_frame[OF d]
    show ?thesis by auto
  next
    case False
    then have "st' = st"
      using assms resolve_not_file[of r ext st] resolve_cached_state[of st _ ext r] by fastforce
    then show ?thesis by simp
  qed
  then show "warnings st' = warnings st" and "assigned st' = assigned st"
    and "ctx_config (resolverContext st') = ctx_config (resolverContext st)"
    and "ctx_env (resolverContext st') = ctx_env (resolverContext st)" by simp_all
qed

lemma assignProp_Inr:
  "assignProp target k v st = (Inr t', st') \<longleftrightarrow>
   (\<exists>a arr kvs. target = JObj a arr kvs \<and> t' = JObj a arr (AList.update k v kvs)
      \<and> st' = st\<lparr>assigned := assigned st @ [a]\<rparr>)"
  by (cases target) (auto simp: assignProp_def)

lemma assignProp_frame:
  "assignProp target k v st = (out, st') \<Longrightarrow>
   warnings st' = warnings st \<and> resolverContext st' = resolverContext st
   \<and> nextAddr st' = nextAddr st \<and> sopsCalls st' = sopsCalls st"
  by (cases target) (auto simp: assignProp_def)

text \<open>The loop over entries.\<close>

lemma forEntries_Cons_Inr:
  "forEntries body (kv # rest) st = (Inr done, st') \<longleftrightarrow>
   (\<exists>v st1 done1. body (fst kv) (snd kv) st = (Inr v, st1)
      \<and> forEntries body rest st1 = (Inr done1, st') \<and> done = (fst kv, v) # done1)"
  by (auto split: prod.splits sum.splits)

lemma forEntries_rel:
  assumes "\<And>k v s v' s'. body k v s = (Inr v', s') \<Longrightarrow> I s \<Longrightarrow> R k v v' \<and> I s'"
  shows "forEntries body kvs st = (Inr done, st') \<Longrightarrow> I st \<Longrightarrow>
         list_all2 (\<lambda>kv kv'. fst kv' = fst kv \<and> R (fst kv) (snd kv) (snd kv')) kvs done \<and> I st'"
proof (induction kvs arbitrary: st "done")
  case Nil
  then show ?case by simp
next
  case (Cons kv rest)
  from Cons.prems(1) obtain v st1 done1 where b: "body (fst kv) (snd kv) st = (Inr v, st1)"
    and r: "forEntries body rest st1 = (Inr done1, st')" and d: "done = (fst kv, v) # done1"
    unfolding forEntries_Cons_Inr by blast
  from assms[OF b Cons.prems(2)] have "R (fst kv) (snd kv) v" "I st1" by simp_all
  with Cons.IH[OF r] d show ?case by simp
qed

lemma forEntries_inv:
  assumes "\<And>k v s r s'. body k v s = (r, s') \<Longrightarrow> I s \<Longrightarrow> I s'"
  shows "I st \<Longrightarrow> I (snd (forEntries body kvs st))"
proof (induction kvs arbitrary: st)
  case Nil
  then show ?case by simp
next
  case (Cons kv rest)
  obtain r st1 where b: "body (fst kv) (snd kv) st = (r, st1)"
    by (cases "body (fst kv) (snd kv) st")
  from assms[OF b Cons.prems] have i: "I st1" .
  show ?case
  proof (cases r)
    case (Inl e)
    with b i show ?thesis by simp
  next
    case (Inr v)
    with b Cons.IH[OF i] show ?thesis
      by (cases "forEntries body rest st1"; cases "fst (forEntries body rest st1)") auto
  qed
qed

lemma forEntries_unchanged:
  assumes "\<And>kv. kv \<in> set kvs \<Longrightarrow> body (fst kv) (snd kv) st = (Inr (snd kv), st)"
  shows "forEntries body kvs st = (Inr kvs, st)"
  using assms by (induction kvs) simp_all

lemma forEntries_first_failure:
  "forEntries body pre st = (Inr done, st1) \<Longrightarrow> body k v st1 = (Inl e, st2) \<Longrightarrow>
   forEntries body (pre @ (k, v) # post) st = (Inl e, st2)"
proof (induction pre arbitrary: st "done")
  case Nil
  then show ?case by simp
next
  case (Cons kv pre)
  from Cons.prems(1) obtain v0 st0 done1 where b: "body (fst kv) (snd kv) st = (Inr v0, st0)"
    and r: "forEntries body pre st0 = (Inr done1, st1)"
    unfolding forEntries_Cons_Inr by blast
  from Cons.IH[OF r Cons.prems(2)] b show ?case by simp
qed

lemma pushWarning_sel:
  "warnings (pushWarning p m st) = warnings st @
     [\<lparr>w_addr = nextAddr st, w_code = SECRETS_REF_OVERRIDES_PLAINTEXT, w_path = p, w_message = m\<rparr>]"
  "resolverContext (pushWarning p m st) = resolverContext st"
  "assigned (pushWarning p m st) = assigned st"
  "sopsCalls (pushWarning p m st) = sopsCalls st"
  "nextAddr (pushWarning p m st) = Suc (nextAddr st)"
  by (simp_all add: pushWarning_def)

lemma andThen_frame:
  assumes "\<And>r s'. m = (r, s') \<Longrightarrow> P s'"
    and "\<And>x s r s'. P s \<Longrightarrow> f x s = (r, s') \<Longrightarrow> P s'"
  shows "P (snd (andThen m f))"
proof (cases m)
  case (Pair r s)
  with assms(1) have p: "P s" by simp
  show ?thesis
  proof (cases r)
    case (Inl e)
    with Pair p show ?thesis by simp
  next
    case (Inr x)
    with Pair p assms(2)[of s x "fst (f x s)" "snd (f x s)"] show ?thesis by simp
  qed
qed

lemma resolve_then_assign_warnings:
  "warnings (snd (andThen (resolveSecretRefValue ext r st)
       (\<lambda>resolvedValue st2. assignProp target k resolvedValue st2))) = warnings st"
  by (rule andThen_frame[where P = "\<lambda>s. warnings s = warnings st"])
     (auto dest: resolve_frame(1) assignProp_frame)

lemma googleChat_target_warnings:
  "warnings (snd (resolveGoogleChatServiceAccount ext target path st)) =
     warnings st @
       (if googleChatOverride ext target
        then [\<lparr>w_addr = nextAddr st, w_code = SECRETS_REF_OVERRIDES_PLAINTEXT, w_path = path,
               w_message = googleChatOverrideMessage path\<rparr>]
        else [])"
  by (simp add: resolveGoogleChatServiceAccount_def Let_def googleChatOverride_def
      googleChatOverrideMessage_def resolve_then_assign_warnings pushWarning_sel
      split: option.splits)

lemma googleChat_explicit_wins:
  "asSecretRef ext (optProp target ''serviceAccountRef'') = Some r \<Longrightarrow>
   resolveGoogleChatServiceAccount ext target path st =
     andThen
       (resolveSecretRefValue ext r
          (if googleChatOverride ext target
           then pushWarning path (googleChatOverrideMessage path) st else st))
       (\<lambda>resolvedValue st2. assignProp target ''serviceAccount'' resolvedValue st2)"
  by (simp add: resolveGoogleChatServiceAccount_def Let_def googleChatOverride_def
      googleChatOverrideMessage_def)

lemma googleChat_target_content:
  "map warningContent (warnings (snd (resolveGoogleChatServiceAccount ext target path st))) =
     map warningContent (warnings st) @ googleChatWarnings ext path target"
  by (simp add: googleChat_target_warnings googleChatWarnings_def warningContent_def)

lemma googleChat_target_accounts:
  "resolveGoogleChatServiceAccount ext target path st = (Inr t', st') \<Longrightarrow>
   optProp t' ''accounts'' = optProp target ''accounts''"
  by (auto simp: resolveGoogleChatServiceAccount_def Let_def andThen_eq_Inr assignProp_Inr
      optProp_def update_conv' split: option.splits)

lemma forEntries_warnings:
  assumes "\<And>k v s. map warningContent (warnings (snd (body k v s)))
             = map warningContent (warnings s) @ W k v"
  shows "forEntries body kvs st = (Inr done, st') \<Longrightarrow>
         map warningContent (warnings st')
           = map warningContent (warnings st) @ concat (map (\<lambda>kv. W (fst kv) (snd kv)) kvs)"
proof (induction kvs arbitrary: st "done")
  case Nil
  then show ?case by simp
next
  case (Cons kv rest)
  from Cons.prems(1) obtain v st1 done1 where b: "body (fst kv) (snd kv) st = (Inr v, st1)"
    and r: "forEntries body rest st1 = (Inr done1, st')"
    unfolding forEntries_Cons_Inr by blast
  from assms[of "fst kv" "snd kv" st] b
  have "map warningContent (warnings st1) = map warningContent (warnings st) @ W (fst kv) (snd kv)"
    by simp
  with Cons.IH[OF r] show ?case by simp
qed

lemma googleChat_account_content:
  "map warningContent (warnings (snd (resolveGoogleChatAccount ext accountId account st))) =
     map warningContent (warnings st) @
       (if isRecord account
        then googleChatWarnings ext (''channels.googlechat.accounts.'' @ accountId) account
        else [])"
  by (simp add: resolveGoogleChatAccount_def googleChat_target_content)

lemma googleChat_accounts_content:
  assumes "resolveGoogleChatAccounts ext googleChat st = (Inr g', st')"
  shows "map warningContent (warnings st') =
     map warningContent (warnings st) @
       concat (map (\<lambda>kv. if isRecord (snd kv)
                         then googleChatWarnings ext (''channels.googlechat.accounts.'' @ fst kv) (snd kv)
                         else [])
                 (googleChatAccountEntries googleChat))"
proof (cases "isRecord (optProp googleChat ''accounts'')")
  case False
  with assms have "st' = st" by (simp add: resolveGoogleChatAccounts_def)
  moreover from False have "googleChatAccountEntries googleChat = []"
    by (auto simp: googleChatAccountEntries_def isRecord_def split: jv.splits)
  ultimately show ?thesis by simp
next
  case True
  then obtain a kvs where acc: "optProp googleChat ''accounts'' = JObj a False kvs"
    by (auto simp: isRecord_def split: jv.splits)
  with assms obtain "done" where
    f: "forEntries (resolveGoogleChatAccount ext) kvs st = (Inr done, st')"
    by (auto simp: resolveGoogleChatAccounts_def isRecord_def objectEntries_def andThen_eq_Inr)
  from forEntries_warnings[of "resolveGoogleChatAccount ext", OF googleChat_account_content f] acc
  show ?thesis by (simp add: googleChatAccountEntries_def)
qed

section \<open>Forgetting identities\<close>

lemma erase_simps [simp]:
  "erase JUndefined = JUndefined" "erase JNull = JNull" "erase (JBool b) = JBool b"
  "erase (JNum i) = JNum i" "erase (JStr s) = JStr s"
  "erase (JObj a arr kvs) = JObj () arr (map (\<lambda>kv. (fst kv, erase (snd kv))) kvs)"
  by (simp_all add: erase_def prod.map_ident map_prod_def case_prod_beta)

lemma erase_eq_prim [simp]:
  "erase v = JUndefined \<longleftrightarrow> v = JUndefined" "erase v = JNull \<longleftrightarrow> v = JNull"
  "erase v = JStr s \<longleftrightarrow> v = JStr s"
  by (cases v; simp)+

lemma map_of_erase:
  "map_of (map (\<lambda>kv. (fst kv, erase (snd kv))) kvs) k = map_option erase (map_of kvs k)"
  by (induction kvs) auto

lemma erase_optProp: "erase (optProp v k) = optProp (erase v) k"
  by (cases v) (simp_all add: optProp_def map_of_erase split: option.splits)

lemma truthy_erase [simp]: "truthy (erase v) = truthy v"
  by (cases v) (simp_all add: truthy_def)

lemma isRecord_erase [simp]: "isRecord (erase v) = isRecord v"
  by (cases v) (simp_all add: isRecord_def)

lemma asSecretRef_erase [simp]: "asSecretRef ext (erase v) = asSecretRef ext v"
  by (simp add: asSecretRef_def erase_def jv.map_comp comp_def)

lemma optProp_undefined_erase: "optProp (erase v) k = JUndefined \<longleftrightarrow> optProp v k = JUndefined"
  by (simp add: erase_optProp[symmetric])

lemma googleChatOverride_erase [simp]: "googleChatOverride ext (erase v) = googleChatOverride ext v"
  by (simp add: googleChatOverride_def erase_optProp[symmetric])

lemma googleChatWarnings_erase [simp]:
  "googleChatWarnings ext path (erase v) = googleChatWarnings ext path v"
  by (simp add: googleChatWarnings_def)

lemma clone_erase:
  "erase (fst (structuredClone (v :: 'a jv) n)) = erase v"
  "map (\<lambda>kv. (fst kv, erase (snd kv))) (fst (cloneProps (kvs :: (string \<times> 'a jv) list) n))
     = map (\<lambda>kv. (fst kv, erase (snd kv))) kvs"
  by (induction v n and kvs n rule: structuredClone_cloneProps.induct)
     (auto split: prod.splits)

lemma clone_mono:
  "n \<le> snd (structuredClone (v :: 'a jv) n)"
  "n \<le> snd (cloneProps (kvs :: (string \<times> 'a jv) list) n)"
  by (induction v n and kvs n rule: structuredClone_cloneProps.induct)
     (auto split: prod.splits)

lemma clone_fresh:
  "\<forall>x \<in> set_jv (fst (structuredClone (v :: 'a jv) n)). n \<le> x \<and> x < snd (structuredClone v n)"
  "\<forall>kv \<in> set (fst (cloneProps (kvs :: (string \<times> 'a jv) list) n)).
     \<forall>x \<in> set_jv (snd kv). n \<le> x \<and> x < snd (cloneProps kvs n)"
proof (induction v n and kvs n rule: structuredClone_cloneProps.induct)
  case (6 a arr kvs n)
  from clone_mono(2)[of "Suc n" kvs] 6 show ?case
    by (force split: prod.splits)
next
  case (8 kv kvs n)
  obtain v' n1 where c: "structuredClone (snd kv) n = (v', n1)"
    by (cases "structuredClone (snd kv) n")
  obtain kvs' n2 where d: "cloneProps kvs n1 = (kvs', n2)" by (cases "cloneProps kvs n1")
  from clone_mono(1)[of n "snd kv"] clone_mono(2)[of n1 kvs] c d have "n \<le> n1" "n1 \<le> n2"
    by simp_all
  with 8 c d show ?case by (force split: prod.splits)
qed simp_all

lemma googleChatAccountEntries_erase:
  "googleChatAccountEntries (erase g) = map (\<lambda>kv. (fst kv, erase (snd kv))) (googleChatAccountEntries g)"
  by (cases "optProp g ''accounts''")
     (simp_all add: googleChatAccountEntries_def erase_optProp[symmetric] split: bool.splits)

lemma configWalkWarnings_erase: "configWalkWarnings ext (erase c) = configWalkWarnings ext c"
  by (simp add: configWalkWarnings_def Let_def erase_optProp[symmetric]
      googleChatAccountEntries_erase comp_def cong: if_cong)

lemma optProp_withProp_other: "k' \<noteq> k \<Longrightarrow> optProp (withProp v k x) k' = optProp v k'"
  by (cases v) (simp_all add: withProp_def optProp_def update_conv')

lemma optProp_withProp_same:
  "optProp (withProp (JObj a arr kvs) k x) k = x"
  by (simp add: withProp_def optProp_def update_conv')

lemma resolve_warnings [simp]: "warnings (snd (resolveSecretRefValue ext r st)) = warnings st"
  using resolve_frame(1)[of ext r st] by (cases "resolveSecretRefValue ext r st") simp

lemma assignProp_warnings [simp]: "warnings (snd (assignProp t k v st)) = warnings st"
  by (cases t) (simp_all add: assignProp_def)

lemma snd_andThen:
  "snd (andThen m f) = (case fst m of Inl e \<Rightarrow> snd m | Inr x \<Rightarrow> snd (f x (snd m)))"
  by (cases m; cases "fst m") (auto simp: andThen_def)

lemma provider_frame:
  "resolveProviderApiKey ext k v s = (r, s') \<Longrightarrow> warnings s' = warnings s"
proof -
  have "warnings (snd (resolveProviderApiKey ext k v s)) = warnings s"
    by (simp add: resolveProviderApiKey_def snd_andThen split: sum.splits option.splits)
  then show "resolveProviderApiKey ext k v s = (r, s') \<Longrightarrow> warnings s' = warnings s" by simp
qed

lemma resolveProviders_frame:
  assumes "resolveProviders ext resolved st = (Inr r1, st1)"
  shows "optProp r1 ''channels'' = optProp resolved ''channels''" and "warnings st1 = warnings st"
proof -
  let ?providers = "optProp (optProp resolved ''models'') ''providers''"
  show "optProp r1 ''channels'' = optProp resolved ''channels''"
    using assms
    by (auto simp: resolveProviders_def Let_def andThen_eq_Inr optProp_withProp_other
        split: if_splits)
  show "warnings st1 = warnings st"
  proof (cases "truthy ?providers")
    case False
    with assms show ?thesis by (simp add: resolveProviders_def Let_def)
  next
    case True
    with assms obtain entries "done" where
      f: "forEntries (resolveProviderApiKey ext) entries st = (Inr done, st1)"
      by (auto simp: resolveProviders_def Let_def andThen_eq_Inr)
    from forEntries_inv[of "resolveProviderApiKey ext" "\<lambda>s. warnings s = warnings st" st entries]
      provider_frame f
    show ?thesis by simp
  qed
qed

lemma resolveGoogleChat_content:
  assumes "resolveGoogleChat ext resolved st = (Inr r', st')"
  shows "map warningContent (warnings st') =
           map warningContent (warnings st) @ configWalkWarnings ext resolved"
proof (cases "truthy (optProp (optProp resolved ''channels'') ''googlechat'')")
  case False
  with assms show ?thesis
    by (simp add: resolveGoogleChat_def configWalkWarnings_def Let_def)
next
  case True
  let ?g = "optProp (optProp resolved ''channels'') ''googlechat''"
  from True assms obtain g1 st1 g2 where
    t: "resolveGoogleChatServiceAccount ext ?g ''channels.googlechat'' st = (Inr g1, st1)"
    and a: "resolveGoogleChatAccounts ext g1 st1 = (Inr g2, st')"
    by (auto simp: resolveGoogleChat_def Let_def andThen_eq_Inr)
  from googleChat_target_content[of ext ?g "''channels.googlechat''" st] t
  have w1: "map warningContent (warnings st1) =
      map warningContent (warnings st) @ googleChatWarnings ext ''channels.googlechat'' ?g"
    by simp
  from googleChat_target_accounts[OF t]
  have "googleChatAccountEntries g1 = googleChatAccountEntries ?g"
    by (simp add: googleChatAccountEntries_def)
  with googleChat_accounts_content[OF a] w1 True show ?thesis
    by (simp add: configWalkWarnings_def Let_def)
qed

lemma configWalk_content:
  assumes "resolveConfigSecretRefs ext config st = (Inr resolved, st')"
  shows "map warningContent (warnings st') =
           map warningContent (warnings st) @ configWalkWarnings ext config"
proof -
  obtain c n where c: "structuredClone config (nextAddr st) = (c, n)"
    by (cases "structuredClone config (nextAddr st)")
  with assms obtain r1 st1 where p: "resolveProviders ext c (st\<lparr>nextAddr := n\<rparr>) = (Inr r1, st1)"
    and g: "resolveGoogleChat ext r1 st1 = (Inr resolved, st')"
    by (auto simp: resolveConfigSecretRefs_def andThen_eq_Inr)
  from resolveProviders_frame[OF p] have ch: "optProp r1 ''channels'' = optProp c ''channels''"
    and w: "warnings st1 = warnings st" by simp_all
  from ch have "configWalkWarnings ext r1 = configWalkWarnings ext c"
    by (simp add: configWalkWarnings_def)
  also have "\<dots> = configWalkWarnings ext (erase c)" by (simp add: configWalkWarnings_erase)
  also have "erase c = erase config" using clone_erase(1)[of config "nextAddr st"] c by simp
  finally have "configWalkWarnings ext r1 = configWalkWarnings ext config"
    by (simp add: configWalkWarnings_erase)
  with resolveGoogleChat_content[OF g] w show ?thesis by simp
qed

section \<open>Facts about the examples\<close>

lemma example_lookups:
  "exampleEnv ''GC_SA'' = Some ''resolved''" "exampleEnv ''ACME_KEY'' = Some ''secret123''"
  "exampleEnv ''X'' = Some ''resolved''"
  by (simp_all add: exampleEnv_def)

lemma trim_examples:
  "trim ''GC_SA'' = ''GC_SA''" "trim ''ACME_KEY'' = ''ACME_KEY''" "trim ''X'' = ''X''"
  "trim ''resolved'' = ''resolved''" "trim ''secret123'' = ''secret123''"
  "trim ''plaintext'' = ''plaintext''" "trim [] = []"
  by (simp_all add: trim_def isWhiteSpace_def)

section \<open>The claim about plain configurations\<close>

lemma objectEntries_erase:
  "objectEntries (erase v) = map_sum id (map (\<lambda>kv. (fst kv, erase (snd kv)))) (objectEntries v)"
  by (cases v) (simp_all add: objectEntries_def)

lemma providerEntries_erase:
  "providerEntries (erase c) = map (\<lambda>kv. (fst kv, erase (snd kv))) (providerEntries c)"
  by (cases "objectEntries (optProp (optProp c ''models'') ''providers'')")
     (simp_all add: providerEntries_def Let_def erase_optProp[symmetric] objectEntries_erase)

lemma hasNoSecretRefs_erase: "hasNoSecretRefs ext (erase c) = hasNoSecretRefs ext c"
  by (simp add: hasNoSecretRefs_def Let_def providerEntries_erase googleChatAccountEntries_erase
      erase_optProp[symmetric] list_all_iff)

lemma providersReadable_erase: "providersReadable (erase c) = providersReadable c"
  by (simp add: providersReadable_def providerEntries_erase list_all_iff)

lemma withProp_same: "truthy (optProp v k) \<Longrightarrow> withProp v k (optProp v k) = v"
  by (cases v) (auto simp: withProp_def optProp_def truthy_def update_triv split: option.splits)

lemma withProp_same_record: "isRecord (optProp v k) \<Longrightarrow> withProp v k (optProp v k) = v"
  by (cases v) (auto simp: withProp_def optProp_def isRecord_def update_triv split: option.splits)

lemma withEntries_same: "objectEntries v = Inr kvs \<Longrightarrow> withEntries v kvs = v"
  by (cases v) (auto simp: withEntries_def objectEntries_def)

lemma provider_plain:
  "v \<noteq> JNull \<Longrightarrow> v \<noteq> JUndefined \<Longrightarrow> asSecretRef ext (optProp v ''apiKey'') = None \<Longrightarrow>
   resolveProviderApiKey ext k v st = (Inr v, st)"
  by (cases v) (simp_all add: resolveProviderApiKey_def getProp_def)

lemma resolveProviders_plain:
  assumes "list_all (\<lambda>kv. asSecretRef ext (optProp (snd kv) ''apiKey'') = None) (providerEntries c)"
    and "providersReadable c"
  shows "resolveProviders ext c st = (Inr c, st)"
proof (cases "truthy (optProp (optProp c ''models'') ''providers'')")
  case False
  then show ?thesis by (simp add: resolveProviders_def Let_def)
next
  case True
  let ?models = "optProp c ''models''"
  let ?providers = "optProp ?models ''providers''"
  from True obtain entries where e: "objectEntries ?providers = Inr entries"
    by (cases ?providers) (auto simp: objectEntries_def truthy_def)
  with True have pe: "providerEntries c = entries" by (simp add: providerEntries_def Let_def)
  have "forEntries (resolveProviderApiKey ext) entries st = (Inr entries, st)"
    using assms pe by (intro forEntries_unchanged provider_plain)
      (auto simp: providersReadable_def list_all_iff)
  moreover from True have "truthy ?models"
    by (cases ?models) (auto simp: truthy_def optProp_def)
  ultimately show ?thesis
    using True e by (simp add: resolveProviders_def Let_def withEntries_same withProp_same)
qed

lemma googleChat_target_plain:
  "asSecretRef ext (optProp t ''serviceAccountRef'') = None \<Longrightarrow>
   asSecretRef ext (optProp t ''serviceAccount'') = None \<Longrightarrow>
   resolveGoogleChatServiceAccount ext t path st = (Inr t, st)"
  by (simp add: resolveGoogleChatServiceAccount_def)

lemma resolveGoogleChat_plain:
  assumes "let googleChat = optProp (optProp c ''channels'') ''googlechat''
        in truthy googleChat \<longrightarrow>
             asSecretRef ext (optProp googleChat ''serviceAccountRef'') = None
             \<and> asSecretRef ext (optProp googleChat ''serviceAccount'') = None
             \<and> list_all (\<lambda>kv. isRecord (snd kv) \<longrightarrow>
                    asSecretRef ext (optProp (snd kv) ''serviceAccountRef'') = None
                    \<and> asSecretRef ext (optProp (snd kv) ''serviceAccount'') = None)
                  (googleChatAccountEntries googleChat)"
  shows "resolveGoogleChat ext c st = (Inr c, st)"
proof (cases "truthy (optProp (optProp c ''channels'') ''googlechat'')")
  case False
  then show ?thesis by (simp add: resolveGoogleChat_def Let_def)
next
  case True
  let ?channels = "optProp c ''channels''"
  let ?g = "optProp ?channels ''googlechat''"
  from True assms have t: "resolveGoogleChatServiceAccount ext ?g ''channels.googlechat'' st = (Inr ?g, st)"
    by (simp add: Let_def googleChat_target_plain)
  have a: "resolveGoogleChatAccounts ext ?g st = (Inr ?g, st)"
  proof (cases "isRecord (optProp ?g ''accounts'')")
    case False
    then show ?thesis by (simp add: resolveGoogleChatAccounts_def)
  next
    case r: True
    then obtain a kvs where acc: "optProp ?g ''accounts'' = JObj a False kvs"
      by (auto simp: isRecord_def split: jv.splits)
    then have ge: "googleChatAccountEntries ?g = kvs" by (simp add: googleChatAccountEntries_def)
    have "forEntries (resolveGoogleChatAccount ext) kvs st = (Inr kvs, st)"
      using assms True ge
      by (intro forEntries_unchanged)
         (auto simp: Let_def list_all_iff resolveGoogleChatAccount_def googleChat_target_plain)
    with r acc show ?thesis
      using withProp_same_record[OF r]
      by (simp add: resolveGoogleChatAccounts_def objectEntries_def withEntries_def)
  qed
  from True have "truthy ?channels"
    by (cases ?channels) (auto simp: truthy_def optProp_def)
  with t a True show ?thesis
    by (simp add: resolveGoogleChat_def Let_def withProp_same)
qed

lemma configWalk_plain:
  assumes "hasNoSecretRefs ext config" and "providersReadable config"
  shows "resolveConfigSecretRefs ext config st =
           (Inr (fst (structuredClone config (nextAddr st))),
            st\<lparr>nextAddr := snd (structuredClone config (nextAddr st))\<rparr>)"
proof -
  obtain c n where c: "structuredClone config (nextAddr st) = (c, n)"
    by (cases "structuredClone config (nextAddr st)")
  then have e: "erase c = erase config" using clone_erase(1)[of config "nextAddr st"] by simp
  from assms(1) e have h: "hasNoSecretRefs ext c"
    using hasNoSecretRefs_erase[of ext c] hasNoSecretRefs_erase[of ext config] by simp
  from assms(2) e have r: "providersReadable c"
    using providersReadable_erase[of c] providersReadable_erase[of config] by simp
  from h r have "resolveProviders ext c (st\<lparr>nextAddr := n\<rparr>) = (Inr c, st\<lparr>nextAddr := n\<rparr>)"
    by (intro resolveProviders_plain) (simp_all add: hasNoSecretRefs_def)
  moreover from h have "resolveGoogleChat ext c (st\<lparr>nextAddr := n\<rparr>) = (Inr c, st\<lparr>nextAddr := n\<rparr>)"
    by (intro resolveGoogleChat_plain) (simp add: hasNoSecretRefs_def)
  ultimately show ?thesis using c by (simp add: resolveConfigSecretRefs_def)
qed

lemma getProp_Inr: "getProp v k = Inr x \<longleftrightarrow> v \<noteq> JNull \<and> v \<noteq> JUndefined \<and> x = optProp v k"
  by (cases v) (auto simp: getProp_def)

lemma assignProp_withProp:
  "assignProp t k v s = (Inr t', s') \<Longrightarrow> t' = withProp t k v \<and> optProp t' k = v"
  by (auto simp: assignProp_Inr withProp_def optProp_def update_conv')

lemma provider_entry_Inr:
  assumes "resolveProviderApiKey ext k p s = (Inr p', s')"
  shows "(asSecretRef ext (optProp p ''apiKey'') = None \<and> p' = p \<and> s' = s)
       \<or> (\<exists>ref v s1. asSecretRef ext (optProp p ''apiKey'') = Some ref
             \<and> resolveSecretRefValue ext ref s = (Inr v, s1) \<and> isNonEmptyString v
             \<and> assignProp p ''apiKey'' v s1 = (Inr p', s'))"
  using assms
  by (auto simp: resolveProviderApiKey_def andThen_eq_Inr getProp_Inr
      split: option.splits if_splits)

lemma provider_entry_invalid:
  "provider \<noteq> JNull \<Longrightarrow> provider \<noteq> JUndefined \<Longrightarrow>
   asSecretRef ext (optProp provider ''apiKey'') = Some ref \<Longrightarrow>
   resolveSecretRefValue ext ref st = (Inr v, st1) \<Longrightarrow> \<not> isNonEmptyString v \<Longrightarrow>
   resolveProviderApiKey ext providerId provider st = (Inl InvalidResolvedValue, st1)"
  by (cases provider) (simp_all add: resolveProviderApiKey_def getProp_def)

lemma resolveProviders_failure:
  assumes "optProp (optProp c ''models'') ''providers'' = JObj a arr (pre @ (k, p) # post)"
    and "forEntries (resolveProviderApiKey ext) pre st = (Inr done, st1)"
    and "resolveProviderApiKey ext k p st1 = (Inl e, st2)"
  shows "resolveProviders ext c st = (Inl e, st2)"
  using forEntries_first_failure[OF assms(2,3), of post] assms(1)
  by (simp add: resolveProviders_def Let_def truthy_def objectEntries_def)

lemma update_map_snd:
  "map (\<lambda>kv. (fst kv, f (snd kv))) (AList.update k v al)
   = AList.update k (f v) (map (\<lambda>kv. (fst kv, f (snd kv))) al)"
  by (induction al) auto

lemma erase_withProp: "erase (withProp v k x) = withProp (erase v) k (erase x)"
  by (cases v) (simp_all add: withProp_def update_map_snd)

lemma erase_JObj_D:
  "erase v = JObj () arr es \<Longrightarrow>
   \<exists>a kvs. v = JObj a arr kvs \<and> map (\<lambda>kv. (fst kv, erase (snd kv))) kvs = es"
  by (cases v) auto

lemma map_erase_eq_all2:
  "map (\<lambda>kv. (fst kv, erase (snd kv))) xs = map (\<lambda>kv. (fst kv, erase (snd kv))) ys \<Longrightarrow>
   list_all2 (\<lambda>x y. fst y = fst x \<and> erase (snd y) = erase (snd x)) xs ys"
proof (induction xs arbitrary: ys)
  case Nil
  then show ?case by simp
next
  case (Cons x xs)
  then show ?case by (cases ys) auto
qed

lemma resolveGoogleChat_models:
  "resolveGoogleChat ext r1 st1 = (Inr r, st') \<Longrightarrow> optProp r ''models'' = optProp r1 ''models''"
  by (auto simp: resolveGoogleChat_def Let_def andThen_eq_Inr optProp_withProp_other
      split: if_splits)

lemma resolveProviders_entries:
  assumes "resolveProviders ext c st = (Inr r1, st1)"
    and "optProp (optProp c ''models'') ''providers'' = JObj a arr centries"
  shows "\<exists>done. forEntries (resolveProviderApiKey ext) centries st = (Inr done, st1)
           \<and> optProp (optProp r1 ''models'') ''providers'' = JObj a arr done"
proof -
  from assms(2) obtain ma marr mkvs where m: "optProp c ''models'' = JObj ma marr mkvs"
    by (cases "optProp c ''models''") (auto simp: optProp_def)
  then obtain ca carr ckvs where c: "c = JObj ca carr ckvs"
    by (cases c) (auto simp: optProp_def)
  from assms obtain "done" where f: "forEntries (resolveProviderApiKey ext) centries st = (Inr done, st1)"
    and r: "r1 = withProp c ''models'' (withProp (optProp c ''models'') ''providers''
              (withEntries (JObj a arr centries) done))"
    by (auto simp: resolveProviders_def Let_def truthy_def objectEntries_def andThen_eq_Inr)
  have "optProp (optProp r1 ''models'') ''providers'' = JObj a arr done"
    unfolding r m unfolding c by (simp add: optProp_withProp_same withEntries_def)
  with f show ?thesis by blast
qed

lemma countProvider_eval:
  "asSecretRef countExternals (optProp countProvider ''apiKey'')
     = Some \<lparr>ref_source = ''file'', ref_id = ''/count''\<rparr>"
  "resolveSecretRefValue countExternals \<lparr>ref_source = ''file'', ref_id = ''/count''\<rparr>
       (newPass sopsConfig exampleEnv 30)
   = (Inr (JNum 3),
      snd (resolveSecretRefValue countExternals \<lparr>ref_source = ''file'', ref_id = ''/count''\<rparr>
             (newPass sopsConfig exampleEnv 30)))"
proof -
  show "asSecretRef countExternals (optProp countProvider ''apiKey'')
     = Some \<lparr>ref_source = ''file'', ref_id = ''/count''\<rparr>"
    by code_simp
  have "fst (resolveSecretRefValue countExternals \<lparr>ref_source = ''file'', ref_id = ''/count''\<rparr>
       (newPass sopsConfig exampleEnv 30)) = Inr (JNum 3)"
    by code_simp
  then show "resolveSecretRefValue countExternals \<lparr>ref_source = ''file'', ref_id = ''/count''\<rparr>
       (newPass sopsConfig exampleEnv 30)
   = (Inr (JNum 3),
      snd (resolveSecretRefValue countExternals \<lparr>ref_source = ''file'', ref_id = ''/count''\<rparr>
             (newPass sopsConfig exampleEnv 30)))"
    by (simp add: prod_eq_iff)
qed

text \<open>Claim C7. A configuration none of whose walked fields holds a secret reference (no provider
  API key is one; neither the Google Chat entry nor any of its record sub-accounts has one in
  \<open>serviceAccountRef\<close> or \<open>serviceAccount\<close>), with provider entries that are not null or
  undefined, as their declared type says: the walk returns a configuration deep-equal to the
  input and adds no warning.\<close>

theorem plain_config_unchanged:
  assumes "hasNoSecretRefs ext config" and "providersReadable config"
  shows "\<exists>resolved st'. resolveConfigSecretRefs ext config st = (Inr resolved, st')
           \<and> deepEqual resolved config \<and> warnings st' = warnings st"
  using configWalk_plain[OF assms, of st] clone_erase(1)[of config "nextAddr st"]
  by (simp add: deepEqual_def)

lemma plaintextConfig_plain:
  "hasNoSecretRefs exampleExternals plaintextConfig" "providersReadable plaintextConfig"
  by code_simp+

theorem plain_config_unchanged_witness:
  "\<exists>resolved st'.
     resolveConfigSecretRefs exampleExternals plaintextConfig (newPass plaintextConfig exampleEnv 30)
       = (Inr resolved, st')
     \<and> deepEqual resolved plaintextConfig \<and> warnings st' = []"
  using plain_config_unchanged[OF plaintextConfig_plain, of "newPass plaintextConfig exampleEnv 30"]
  by (simp add: newPass_sel)

section \<open>Facts about the credential profiles\<close>

lemma credential_step:
  assumes "out = andThen (resolveSecretRefValue ext ref st1)
                   (\<lambda>resolvedValue st2.
                      if \<not> isNonEmptyString resolvedValue then (Inl EmptyResolvedCredential, st2)
                      else assignProp (JObj a arr kvs) field resolvedValue st2)"
  shows "warnings (snd out) = warnings st1
       \<and> (case resolveSecretRefValue ext ref st1 of
            (Inl e, s) \<Rightarrow> out = (Inl e, s)
          | (Inr v, s) \<Rightarrow>
              if isNonEmptyString v
              then fst out = Inr (withProp (JObj a arr kvs) field v)
                   \<and> optProp (withProp (JObj a arr kvs) field v) field = v
              else out = (Inl EmptyResolvedCredential, s))"
proof -
  obtain r s where rs: "resolveSecretRefValue ext ref st1 = (r, s)"
    by (cases "resolveSecretRefValue ext ref st1")
  from resolve_frame(1)[OF rs] have w: "warnings s = warnings st1" .
  show ?thesis
  proof (cases r)
    case (Inl e)
    with rs w assms show ?thesis by simp
  next
    case (Inr v)
    with rs w assms show ?thesis
      by (simp add: assignProp_def withProp_def optProp_def update_conv')
  qed
qed

lemma apiKey_credential:
  "credentialResolved ext agentDir profileId ''key'' ''keyRef'' (JObj a arr kvs) st
     (resolveApiKeyProfile ext agentDir profileId (JObj a arr kvs) st)"
proof (cases "asSecretRef ext (optProp (JObj a arr kvs) ''keyRef'')")
  case None
  then show ?thesis by (simp add: credentialResolved_def resolveApiKeyProfile_def)
next
  case (Some ref)
  then show ?thesis
    unfolding credentialResolved_def resolveApiKeyProfile_def Let_def
    by (simp only: option.case) (rule credential_step, simp add: pushWarning_def credentialWarning_def)
qed

lemma token_credential:
  "credentialResolved ext agentDir profileId ''token'' ''tokenRef'' (JObj a arr kvs) st
     (resolveTokenProfile ext agentDir profileId (JObj a arr kvs) st)"
proof (cases "asSecretRef ext (optProp (JObj a arr kvs) ''tokenRef'')")
  case None
  then show ?thesis by (simp add: credentialResolved_def resolveTokenProfile_def)
next
  case (Some ref)
  then show ?thesis
    unfolding credentialResolved_def resolveTokenProfile_def Let_def
    by (simp only: option.case) (rule credential_step, simp add: pushWarning_def credentialWarning_def)
qed

lemma optProp_JStr_D: "optProp v k = JStr s \<Longrightarrow> \<exists>a arr kvs. v = JObj a arr kvs"
  by (cases v) (simp_all add: optProp_def)

lemma resolveProfile_cases:
  "optProp profile ''type'' = JStr ''api_key'' \<Longrightarrow>
     resolveProfile ext agentDir profileId profile st
       = resolveApiKeyProfile ext agentDir profileId profile st"
  "optProp profile ''type'' = JStr ''token'' \<Longrightarrow>
     resolveProfile ext agentDir profileId profile st
       = resolveTokenProfile ext agentDir profileId profile st"
  "profile \<noteq> JNull \<Longrightarrow> profile \<noteq> JUndefined \<Longrightarrow>
   optProp profile ''type'' \<noteq> JStr ''api_key'' \<Longrightarrow> optProp profile ''type'' \<noteq> JStr ''token'' \<Longrightarrow>
     resolveProfile ext agentDir profileId profile st = (Inr profile, st)"
  by (cases profile; simp add: resolveProfile_def getProp_def optProp_def)+

lemma optProp_prim [simp]:
  "optProp JUndefined k = JUndefined" "optProp JNull k = JUndefined"
  "optProp (JBool b) k = JUndefined" "optProp (JNum i) k = JUndefined"
  "optProp (JStr s) k = JUndefined"
  by (simp_all add: optProp_def)

lemma isNonEmptyString_erase [simp]: "isNonEmptyString (erase v) = isNonEmptyString v"
  by (cases v) (simp_all add: isNonEmptyString_def)

lemma credentialWarnings_erase [simp]:
  "credentialWarnings ext agentDir profileId field refField (erase p)
   = credentialWarnings ext agentDir profileId field refField p"
  by (simp add: credentialWarnings_def erase_optProp[symmetric])

lemma optProp_erase_JStr [simp]: "optProp (erase v) k = JStr s \<longleftrightarrow> optProp v k = JStr s"
  by (simp add: erase_optProp[symmetric])

lemma profileWarnings_erase [simp]:
  "profileWarnings ext agentDir (k, erase p) = profileWarnings ext agentDir (k, p)"
  by (simp add: profileWarnings_def)

lemma credential_warnings:
  "warnings (snd (andThen (resolveSecretRefValue ext ref s1)
           (\<lambda>resolvedValue st2.
              if \<not> isNonEmptyString resolvedValue then (Inl e, st2)
              else assignProp t field resolvedValue st2))) = warnings s1"
  by (simp add: snd_andThen split: sum.splits)

lemma profile_warnings:
  "map warningContent (warnings (snd (resolveProfile ext agentDir k p s)))
   = map warningContent (warnings s) @ profileWarnings ext agentDir (k, p)"
  by (cases "getProp p ''type''")
     (auto simp: resolveProfile_def resolveApiKeyProfile_def resolveTokenProfile_def Let_def
        profileWarnings_def credentialWarnings_def credential_warnings pushWarning_sel
        warningContent_def credentialWarning_def getProp_Inr getProp_def
        split: option.splits jv.splits)

lemma concat_profileWarnings_erase:
  "concat (map (profileWarnings ext agentDir) (map (\<lambda>kv. (fst kv, erase (snd kv))) zs))
   = concat (map (profileWarnings ext agentDir) zs)"
proof (induction zs)
  case Nil
  then show ?case by simp
next
  case (Cons z zs)
  have "profileWarnings ext agentDir (fst z, erase (snd z)) = profileWarnings ext agentDir z"
    using profileWarnings_erase[of ext agentDir "fst z" "snd z"] by simp
  with Cons show ?case by simp
qed

lemma map_profileWarnings_erase:
  assumes "map (\<lambda>kv. (fst kv, erase (snd kv))) xs = map (\<lambda>kv. (fst kv, erase (snd kv))) ys"
  shows "concat (map (profileWarnings ext agentDir) xs) = concat (map (profileWarnings ext agentDir) ys)"
proof -
  have "concat (map (profileWarnings ext agentDir) xs)
      = concat (map (profileWarnings ext agentDir) (map (\<lambda>kv. (fst kv, erase (snd kv))) xs))"
    by (simp only: concat_profileWarnings_erase)
  also have "\<dots> = concat (map (profileWarnings ext agentDir) (map (\<lambda>kv. (fst kv, erase (snd kv))) ys))"
    by (simp only: assms)
  also have "\<dots> = concat (map (profileWarnings ext agentDir) ys)"
    by (simp only: concat_profileWarnings_erase)
  finally show ?thesis .
qed

section \<open>The claim about the active snapshot\<close>

lemma assignAt_absent:
  "a \<notin> set_jv t \<Longrightarrow> assignAt a k v t = t"
  "\<forall>kv\<in>set kvs. a \<notin> set_jv (snd kv) \<Longrightarrow> assignAtProps a k v kvs = kvs"
  by (induction a k v t and a k v kvs rule: assignAt_assignAtProps.induct)
     (auto simp: prod_set_defs)

lemma assignInSnapshot_absent:
  assumes "a \<notin> snapshotAddrs s"
  shows "assignInSnapshot a k v s = s"
proof -
  have "map (\<lambda>e. e\<lparr>entry_store := assignAt a k v (entry_store e)\<rparr>) (snap_authStores s)
      = snap_authStores s"
    using assms by (intro map_idI) (auto simp: snapshotAddrs_def entryAddrs_def assignAt_absent(1))
  with assms show ?thesis
    by (simp add: assignInSnapshot_def snapshotAddrs_def assignAt_absent(1))
qed

lemma clone_pair:
  "structuredClone v n = (c, n') \<Longrightarrow>
   erase c = erase v \<and> n \<le> n' \<and> (\<forall>x\<in>set_jv c. n \<le> x \<and> x < n')"
  using clone_erase(1)[of v n] clone_mono(1)[of n v] clone_fresh(1)[of v n] by simp

lemma cloneAuthStores_pair:
  "cloneAuthStores es n = (cs, n') \<Longrightarrow>
   map (\<lambda>e. (entry_agentDir e, erase (entry_store e))) cs
     = map (\<lambda>e. (entry_agentDir e, erase (entry_store e))) es
   \<and> n \<le> n' \<and> (\<forall>c\<in>set cs. \<forall>x\<in>entryAddrs c. n \<le> x \<and> x < n')"
proof (induction es arbitrary: n cs n')
  case Nil
  then show ?case by simp
next
  case (Cons e es)
  obtain s n1 where s: "structuredClone (entry_store e) n = (s, n1)"
    by (cases "structuredClone (entry_store e) n")
  obtain cs1 n2 where r: "cloneAuthStores es (Suc n1) = (cs1, n2)"
    by (cases "cloneAuthStores es (Suc n1)")
  from Cons.prems s r have cs: "cs = \<lparr>entry_addr = n1, entry_agentDir = entry_agentDir e, entry_store = s\<rparr> # cs1"
    and n': "n' = n2" by simp_all
  from clone_pair[OF s] Cons.IH[OF r] show ?case
    unfolding cs n' by (fastforce simp: entryAddrs_def)
qed

lemma cloneWarnings_pair:
  "cloneWarnings ws n = (cs, n') \<Longrightarrow>
   map warningContent cs = map warningContent ws
   \<and> n \<le> n' \<and> (\<forall>c\<in>set cs. n \<le> w_addr c \<and> w_addr c < n')"
proof (induction ws arbitrary: n cs n')
  case Nil
  then show ?case by simp
next
  case (Cons w ws)
  obtain cs1 n1 where r: "cloneWarnings ws (Suc n) = (cs1, n1)"
    by (cases "cloneWarnings ws (Suc n)")
  from Cons.prems r have cs: "cs = w\<lparr>w_addr := n\<rparr> # cs1" and n': "n' = n1" by simp_all
  from Cons.IH[OF r] show ?case
    unfolding cs n' by (fastforce simp: warningContent_def)
qed

lemma cloneSnapshot_pair:
  assumes "cloneSnapshot s n = (c, n')"
  shows "deepEqualSnapshot c s" and "n \<le> n'" and "\<forall>x\<in>snapshotAddrs c. n \<le> x \<and> x < n'"
proof -
  obtain sc n1 where a: "structuredClone (snap_sourceConfig s) n = (sc, n1)"
    by (cases "structuredClone (snap_sourceConfig s) n")
  obtain cf n2 where b: "structuredClone (snap_config s) n1 = (cf, n2)"
    by (cases "structuredClone (snap_config s) n1")
  obtain es n3 where c: "cloneAuthStores (snap_authStores s) (Suc n2) = (es, n3)"
    by (cases "cloneAuthStores (snap_authStores s) (Suc n2)")
  obtain ws n4 where d: "cloneWarnings (snap_warnings s) (Suc n3) = (ws, n4)"
    by (cases "cloneWarnings (snap_warnings s) (Suc n3)")
  from assms a b c d have cdef: "c = \<lparr> snap_addr = n4, snap_sourceConfig = sc, snap_config = cf,
      snap_authStoresAddr = n2, snap_authStores = es, snap_warningsAddr = n3, snap_warnings = ws \<rparr>"
    and n': "n' = Suc n4" by (simp_all add: cloneSnapshot_def)
  note A = clone_pair[OF a] and B = clone_pair[OF b] and C = cloneAuthStores_pair[OF c]
    and D = cloneWarnings_pair[OF d]
  from A B C D show "deepEqualSnapshot c s"
    unfolding cdef by (simp add: deepEqualSnapshot_def snapshotContent_def)
  from A B C D show "n \<le> n'" unfolding n' by simp
  have le: "n \<le> n1" "n1 \<le> n2" "Suc n2 \<le> n3" "Suc n3 \<le> n4" using A B C D by simp_all
  show "\<forall>x\<in>snapshotAddrs c. n \<le> x \<and> x < n'"
  proof
    fix x assume "x \<in> snapshotAddrs c"
    then consider "x = n4" | "x = n2" | "x = n3" | "x \<in> set_jv sc" | "x \<in> set_jv cf"
      | e where "e \<in> set es" "x \<in> entryAddrs e" | w where "w \<in> set ws" "x = w_addr w"
      unfolding cdef snapshotAddrs_def by auto
    then show "n \<le> x \<and> x < n'"
    proof cases
      case 4 with A le show ?thesis unfolding n' by force
    next
      case 5 with B le show ?thesis unfolding n' by force
    next
      case 6 with C le show ?thesis unfolding n' by force
    next
      case 7 with D le show ?thesis unfolding n' by force
    qed (use le n' in simp_all)
  qed
qed

lemma activate_getActive:
  assumes "\<forall>x\<in>snapshotAddrs snapshot. x < heapNext rt"
  shows "\<exists>returned stored rt'.
           getActiveSecretsRuntimeSnapshot (activateSecretsRuntimeSnapshot snapshot rt)
             = (Some returned, rt')
           \<and> activeSnapshot rt' = Some stored
           \<and> deepEqualSnapshot returned snapshot
           \<and> deepEqualSnapshot stored snapshot
           \<and> snapshotAddrs returned \<inter> snapshotAddrs snapshot = {}
           \<and> snapshotAddrs returned \<inter> snapshotAddrs stored = {}
           \<and> (\<forall>a\<in>snapshotAddrs returned. \<forall>k v. assignInSnapshot a k v stored = stored)"
proof -
  obtain stored n1 where a: "cloneSnapshot snapshot (heapNext rt) = (stored, n1)"
    by (cases "cloneSnapshot snapshot (heapNext rt)")
  obtain returned n2 where b: "cloneSnapshot stored n1 = (returned, n2)"
    by (cases "cloneSnapshot stored n1")
  note A = cloneSnapshot_pair[OF a] and B = cloneSnapshot_pair[OF b]
  let ?rt1 = "activateSecretsRuntimeSnapshot snapshot rt"
  have act: "activeSnapshot ?rt1 = Some stored" "heapNext ?rt1 = n1"
    using a by (simp_all add: activateSecretsRuntimeSnapshot_def)
  then have g: "getActiveSecretsRuntimeSnapshot ?rt1 = (Some returned, ?rt1\<lparr>heapNext := n2\<rparr>)"
    using b by (simp add: getActiveSecretsRuntimeSnapshot_def)
  have d1: "snapshotAddrs returned \<inter> snapshotAddrs snapshot = {}"
    using assms A(2) B(3) by fastforce
  have d2: "snapshotAddrs returned \<inter> snapshotAddrs stored = {}"
    using A(3) B(3) by fastforce
  have m: "\<forall>a\<in>snapshotAddrs returned. \<forall>k v. assignInSnapshot a k v stored = stored"
    using d2 by (auto intro!: assignInSnapshot_absent)
  have e: "deepEqualSnapshot returned snapshot"
    using A(1) B(1) by (simp add: deepEqualSnapshot_def)
  from g act(1) e A(1) d1 d2 m show ?thesis by simp
qed

lemma getActive_absent:
  "activeSnapshot rt = None \<Longrightarrow> getActiveSecretsRuntimeSnapshot rt = (None, rt)"
  by (simp add: getActiveSecretsRuntimeSnapshot_def)

text \<open>Claim C8. Activating a snapshot whose objects exist already (their identities lie below
  the allocator) and then asking for the active one returns a snapshot that is deep-equal
  to the activated one and has no object in common with it, nor with the snapshot stored as
  the active one (which is deep-equal to the activated one too); so an assignment to any
  object of the returned snapshot leaves the stored one as it is. When no snapshot is
  active, at the start or after a clear, the absent marker is returned.\<close>

theorem activate_then_get_active:
  assumes "\<forall>x\<in>snapshotAddrs snapshot. x < heapNext rt"
  shows "(\<exists>returned stored rt'.
           getActiveSecretsRuntimeSnapshot (activateSecretsRuntimeSnapshot snapshot rt)
             = (Some returned, rt')
           \<and> activeSnapshot rt' = Some stored
           \<and> deepEqualSnapshot returned snapshot
           \<and> deepEqualSnapshot stored snapshot
           \<and> snapshotAddrs returned \<inter> snapshotAddrs snapshot = {}
           \<and> snapshotAddrs returned \<inter> snapshotAddrs stored = {}
           \<and> (\<forall>a\<in>snapshotAddrs returned. \<forall>k v. assignInSnapshot a k v stored = stored))
       \<and> (activeSnapshot rt0 = None \<longrightarrow> getActiveSecretsRuntimeSnapshot rt0 = (None, rt0))
       \<and> getActiveSecretsRuntimeSnapshot (clearSecretsRuntimeSnapshot rt0)
           = (None, clearSecretsRuntimeSnapshot rt0)"
  using activate_getActive[OF assms] getActive_absent[of rt0]
    getActive_absent[of "clearSecretsRuntimeSnapshot rt0"]
  by (simp add: clearSecretsRuntimeSnapshot_def)

lemma exampleSnapshot_allocated: "\<forall>x\<in>snapshotAddrs exampleSnapshot. x < heapNext emptyRuntime"
  by code_simp

theorem activate_then_get_active_witness:
  "(\<exists>returned stored rt'.
           getActiveSecretsRuntimeSnapshot (activateSecretsRuntimeSnapshot exampleSnapshot emptyRuntime)
             = (Some returned, rt')
           \<and> activeSnapshot rt' = Some stored
           \<and> deepEqualSnapshot returned exampleSnapshot
           \<and> deepEqualSnapshot stored exampleSnapshot
           \<and> snapshotAddrs returned \<inter> snapshotAddrs exampleSnapshot = {}
           \<and> snapshotAddrs returned \<inter> snapshotAddrs stored = {})
   \<and> getActiveSecretsRuntimeSnapshot emptyRuntime = (None, emptyRuntime)"
  using activate_then_get_active[OF exampleSnapshot_allocated, of emptyRuntime]
  by (auto simp: emptyRuntime_def)

section \<open>The claim about the prepared snapshot\<close>

lemma allocatedIn_mono: "allocatedIn b n v \<Longrightarrow> n \<le> n' \<Longrightarrow> allocatedIn b n' v"
  by (fastforce simp: allocatedIn_def)

lemma allocatedIn_prim [simp]:
  "allocatedIn b n JUndefined" "allocatedIn b n JNull" "allocatedIn b n (JBool x)"
  "allocatedIn b n (JNum i)" "allocatedIn b n (JStr s)"
  by (simp_all add: allocatedIn_def)

lemma allocatedIn_JObj:
  "allocatedIn b n (JObj a arr kvs) \<longleftrightarrow>
     b \<le> a \<and> a < n \<and> (\<forall>kv\<in>set kvs. allocatedIn b n (snd kv))"
  by (auto simp: allocatedIn_def prod_set_defs)

lemma allocatedIn_optProp: "allocatedIn b n v \<Longrightarrow> allocatedIn b n (optProp v k)"
  by (cases v) (auto simp: optProp_def allocatedIn_JObj dest!: map_of_SomeD split: option.splits)

lemma set_update_subset: "set (AList.update k v al) \<subseteq> insert (k, v) (set al)"
  by (induction al) auto

lemma allocatedIn_update:
  assumes "\<forall>kv\<in>set al. allocatedIn b n (snd kv)" and "allocatedIn b n x"
  shows "\<forall>kv\<in>set (AList.update k x al). allocatedIn b n (snd kv)"
proof
  fix kv assume "kv \<in> set (AList.update k x al)"
  with set_update_subset[of k x al] have "kv = (k, x) \<or> kv \<in> set al" by auto
  with assms show "allocatedIn b n (snd kv)" by auto
qed

lemma allocatedIn_withProp:
  "allocatedIn b n v \<Longrightarrow> allocatedIn b n x \<Longrightarrow> allocatedIn b n (withProp v k x)"
  by (cases v) (auto simp: withProp_def allocatedIn_JObj intro: allocatedIn_update[rule_format])

lemma allocatedIn_withEntries:
  "allocatedIn b n v \<Longrightarrow> \<forall>kv\<in>set kvs. allocatedIn b n (snd kv) \<Longrightarrow>
   allocatedIn b n (withEntries v kvs)"
  by (cases v) (auto simp: withEntries_def allocatedIn_JObj)

lemma allocatedIn_clone:
  "structuredClone v n = (c, n') \<Longrightarrow> b \<le> n \<Longrightarrow> allocatedIn b n' c"
  using clone_fresh(1)[of v n] by (fastforce simp: allocatedIn_def)

lemma passInv_mono_next:
  "passInv b s \<Longrightarrow> nextAddr s \<le> n \<Longrightarrow> passInv b (s\<lparr>nextAddr := n\<rparr>)"
  by (fastforce simp: passInv_def allocatedIn_def)

lemma passInv_pushWarning: "passInv b s \<Longrightarrow> passInv b (pushWarning p m s)"
  by (fastforce simp: passInv_def pushWarning_def allocatedIn_def)

lemma decryptSopsFile_inv:
  assumes "decryptSopsFile ext cfg s = (p, s1)" and "passInv b s"
  shows "passInv b s1" and "nextAddr s \<le> nextAddr s1"
    and "\<forall>payload. p = Inr payload \<longrightarrow> allocatedIn b (nextAddr s1) payload"
proof -
  have "passInv b s1 \<and> nextAddr s \<le> nextAddr s1
      \<and> (\<forall>payload. p = Inr payload \<longrightarrow> allocatedIn b (nextAddr s1) payload)"
  proof (cases "\<exists>raw. truthy (fileSourceOf cfg) \<and> optProp (fileSourceOf cfg) ''type'' = JStr ''sops''
      \<and> decryptSopsJsonFile ext (sopsRequestOf ext (fileSourceOf cfg)) = Inr raw")
    case True
    then obtain raw where t: "truthy (fileSourceOf cfg)" "optProp (fileSourceOf cfg) ''type'' = JStr ''sops''"
      and d: "decryptSopsJsonFile ext (sopsRequestOf ext (fileSourceOf cfg)) = Inr raw" by blast
    obtain v n where c: "structuredClone raw (nextAddr s) = (v, n)"
      by (cases "structuredClone raw (nextAddr s)")
    from assms(1) t d c have p: "p = Inr v"
      and s1: "s1 = s\<lparr>sopsCalls := sopsCalls s @ [sopsRequestOf ext (fileSourceOf cfg)], nextAddr := n\<rparr>"
      by (simp_all add: decryptSopsFile_def Let_def)
    from clone_pair[OF c] have le: "nextAddr s \<le> n" by simp
    from assms(2) have "b \<le> nextAddr s" by (simp add: passInv_def)
    from allocatedIn_clone[OF c this] have a: "allocatedIn b n v" .
    from assms(2) le have "passInv b s1" unfolding s1
      by (fastforce simp: passInv_def allocatedIn_def)
    with p a le s1 show ?thesis by simp
  next
    case False
    with assms(1) have "(\<forall>payload. p \<noteq> Inr payload)
        \<and> (s1 = s \<or> s1 = s\<lparr>sopsCalls := sopsCalls s @ [sopsRequestOf ext (fileSourceOf cfg)]\<rparr>)"
      by (auto simp: decryptSopsFile_def Let_def split: if_splits sum.splits prod.splits)
    with assms(2) show ?thesis by (auto simp: passInv_def)
  qed
  then show "passInv b s1" and "nextAddr s \<le> nextAddr s1"
    and "\<forall>payload. p = Inr payload \<longrightarrow> allocatedIn b (nextAddr s1) payload" by simp_all
qed

lemma ensure_inv:
  assumes "ensureFileSecrets ext s = (p, s1)" and "passInv b s"
  shows "passInv b s1 \<and> nextAddr s \<le> nextAddr s1
       \<and> (\<forall>payload. p = Inr payload \<longrightarrow> allocatedIn b (nextAddr s1) payload)"
proof (cases "fileSecretsPromise (resolverContext s)")
  case (Some q)
  with assms ensure_cached[OF Some, of ext] show ?thesis by (auto simp: passInv_def)
next
  case None
  obtain q s0 where d: "decryptSopsFile ext (ctx_config (resolverContext s)) s = (q, s0)"
    by (cases "decryptSopsFile ext (ctx_config (resolverContext s)) s")
  from ensure_uncached[OF None d] assms(1)
  have p: "p = q" and s1: "s1 = s0\<lparr>resolverContext := (resolverContext s)\<lparr>fileSecretsPromise := Some q\<rparr>\<rparr>"
    by simp_all
  note D = decryptSopsFile_inv[OF d assms(2)]
  from D(1,3) have "passInv b s1" unfolding s1 by (auto simp: passInv_def)
  with D(2,3) p s1 show ?thesis by simp
qed

lemma resolve_inv:
  assumes "resolveSecretRefValue ext r s = (out, s')" and "passInv b s"
    and "pointerKeepsIdentity ext"
  shows "passInv b s' \<and> nextAddr s \<le> nextAddr s'
       \<and> (\<forall>v. out = Inr v \<longrightarrow> allocatedIn b (nextAddr s') v)"
proof (cases "ref_source r = ''file'' \<and> trim (ref_id r) \<noteq> []")
  case True
  obtain p s1 where e: "ensureFileSecrets ext s = (p, s1)" by (cases "ensureFileSecrets ext s")
  from resolve_file[of r ext s] True e assms(1)
  have out: "out = readFromPromise ext p (trim (ref_id r))" and s': "s' = s1" by simp_all
  note E = ensure_inv[OF e assms(2)]
  have "allocatedIn b (nextAddr s1) v" if "out = Inr v" for v
  proof -
    from that out obtain payload where p: "p = Inr payload"
      and rd: "readJsonPointer ext payload (trim (ref_id r)) = Inr v"
      by (cases p) (auto simp: readFromPromise_def)
    from assms(3) rd have "set_jv v \<subseteq> set_jv payload" by (auto simp: pointerKeepsIdentity_def)
    with E p show ?thesis by (fastforce simp: allocatedIn_def)
  qed
  with E s' show ?thesis by simp
next
  case False
  with assms(1) resolve_not_file[of r ext s] have s': "s' = s" by auto
  have "allocatedIn b (nextAddr s) v" if "out = Inr v" for v
  proof -
    from False that assms(1) have "\<exists>x. v = JStr x"
      by (auto simp: resolveSecretRefValue_def Let_def envLookup_def isNonEmptyString_def
          split: if_splits option.splits)
    then show ?thesis by auto
  qed
  with s' assms(2) show ?thesis by simp
qed

lemma assignProp_inv:
  assumes "assignProp t k v s = (Inr t', s')" and "passInv b s"
    and "allocatedIn b (nextAddr s) t" and "allocatedIn b (nextAddr s) v"
  shows "passInv b s' \<and> nextAddr s' = nextAddr s \<and> allocatedIn b (nextAddr s') t'"
proof -
  from assms(1) obtain a arr kvs where t: "t = JObj a arr kvs"
    and t': "t' = JObj a arr (AList.update k v kvs)" and s': "s' = s\<lparr>assigned := assigned s @ [a]\<rparr>"
    unfolding assignProp_Inr by blast
  from assms(3) t have a: "b \<le> a" "a < nextAddr s" by (simp_all add: allocatedIn_JObj)
  from allocatedIn_withProp[OF assms(3,4), of k] t t'
  have "allocatedIn b (nextAddr s) t'" by (simp add: withProp_def)
  moreover from assms(2) a have "passInv b s'" unfolding s' by (auto simp: passInv_def)
  ultimately show ?thesis using s' by simp
qed

lemma forEntries_alloc:
  assumes body: "\<And>k v s v' s'. body k v s = (Inr v', s') \<Longrightarrow> passInv b s \<Longrightarrow>
            allocatedIn b (nextAddr s) v \<Longrightarrow>
            passInv b s' \<and> nextAddr s \<le> nextAddr s' \<and> allocatedIn b (nextAddr s') v'"
  shows "forEntries body kvs st = (Inr done, st') \<Longrightarrow> passInv b st \<Longrightarrow>
         \<forall>kv\<in>set kvs. allocatedIn b (nextAddr st) (snd kv) \<Longrightarrow>
         passInv b st' \<and> nextAddr st \<le> nextAddr st'
         \<and> (\<forall>kv\<in>set done. allocatedIn b (nextAddr st') (snd kv))"
proof (induction kvs arbitrary: st "done")
  case Nil
  then show ?case by simp
next
  case (Cons kv rest)
  from Cons.prems(1) obtain v st1 done1 where b: "body (fst kv) (snd kv) st = (Inr v, st1)"
    and r: "forEntries body rest st1 = (Inr done1, st')" and d: "done = (fst kv, v) # done1"
    unfolding forEntries_Cons_Inr by blast
  from Cons.prems(3) have h: "allocatedIn b (nextAddr st) (snd kv)" by simp
  from body[OF b Cons.prems(2) h] have 1: "passInv b st1" "nextAddr st \<le> nextAddr st1"
    "allocatedIn b (nextAddr st1) v" by simp_all
  from Cons.prems(3) 1(2) have "\<forall>kv\<in>set rest. allocatedIn b (nextAddr st1) (snd kv)"
    by (auto intro: allocatedIn_mono)
  from Cons.IH[OF r 1(1) this] have 2: "passInv b st'" "nextAddr st1 \<le> nextAddr st'"
    "\<forall>kv\<in>set done1. allocatedIn b (nextAddr st') (snd kv)" by simp_all
  from 1(3) 2(2) have "allocatedIn b (nextAddr st') v" by (rule allocatedIn_mono)
  with 1 2 d show ?case by simp
qed

lemma resolve_assign_inv:
  assumes "resolveSecretRefValue ext r s1 = (Inr v, s2)"
    and "assignProp t k v s2 = (Inr t', s')"
    and "passInv b s1" and "allocatedIn b (nextAddr s1) t" and "pointerKeepsIdentity ext"
  shows "passInv b s' \<and> nextAddr s1 \<le> nextAddr s' \<and> allocatedIn b (nextAddr s') t'"
proof -
  from resolve_inv[OF assms(1,3,5)] have 1: "passInv b s2" "nextAddr s1 \<le> nextAddr s2"
    "allocatedIn b (nextAddr s2) v" by simp_all
  from allocatedIn_mono[OF assms(4) 1(2)] have "allocatedIn b (nextAddr s2) t" .
  from assignProp_inv[OF assms(2) 1(1) this 1(3)] 1(2) show ?thesis by auto
qed

lemma provider_alloc:
  assumes "resolveProviderApiKey ext k p s = (Inr p', s')" and "passInv b s"
    and "allocatedIn b (nextAddr s) p" and "pointerKeepsIdentity ext"
  shows "passInv b s' \<and> nextAddr s \<le> nextAddr s' \<and> allocatedIn b (nextAddr s') p'"
  using provider_entry_Inr[OF assms(1)] assms(2,3) resolve_assign_inv[OF _ _ assms(2,3,4)]
  by blast

lemma googleChat_target_Inr:
  assumes "resolveGoogleChatServiceAccount ext t path s = (Inr t', s')"
  shows "(t' = t \<and> s' = s)
       \<or> (\<exists>r s1 v s2. s1 \<in> {s, pushWarning path (googleChatOverrideMessage path) s}
            \<and> resolveSecretRefValue ext r s1 = (Inr v, s2)
            \<and> assignProp t ''serviceAccount'' v s2 = (Inr t', s'))"
  using assms
  by (auto simp: resolveGoogleChatServiceAccount_def Let_def andThen_eq_Inr
      googleChatOverrideMessage_def split: option.splits if_splits)

lemma googleChat_target_alloc:
  assumes "resolveGoogleChatServiceAccount ext t path s = (Inr t', s')" and "passInv b s"
    and "allocatedIn b (nextAddr s) t" and "pointerKeepsIdentity ext"
  shows "passInv b s' \<and> nextAddr s \<le> nextAddr s' \<and> allocatedIn b (nextAddr s') t'"
proof -
  from googleChat_target_Inr[OF assms(1)] show ?thesis
  proof (elim disjE exE conjE)
    assume "t' = t" "s' = s"
    with assms show ?thesis by simp
  next
    fix r s1 v s2
    assume s1: "s1 \<in> {s, pushWarning path (googleChatOverrideMessage path) s}"
      and r: "resolveSecretRefValue ext r s1 = (Inr v, s2)"
      and a: "assignProp t ''serviceAccount'' v s2 = (Inr t', s')"
    from s1 assms(2) have i: "passInv b s1" by (auto intro: passInv_pushWarning)
    from s1 have le: "nextAddr s \<le> nextAddr s1" by (auto simp: pushWarning_def)
    from allocatedIn_mono[OF assms(3) le] have "allocatedIn b (nextAddr s1) t" .
    from resolve_assign_inv[OF r a i this assms(4)] le show ?thesis by simp
  qed
qed

lemma googleChat_account_alloc:
  assumes "resolveGoogleChatAccount ext k t s = (Inr t', s')" and "passInv b s"
    and "allocatedIn b (nextAddr s) t" and "pointerKeepsIdentity ext"
  shows "passInv b s' \<and> nextAddr s \<le> nextAddr s' \<and> allocatedIn b (nextAddr s') t'"
proof (cases "isRecord t")
  case True
  with assms(1) have "resolveGoogleChatServiceAccount ext t
      (''channels.googlechat.accounts.'' @ k) s = (Inr t', s')"
    by (simp add: resolveGoogleChatAccount_def)
  from googleChat_target_alloc[OF this assms(2,3,4)] show ?thesis .
next
  case False
  with assms show ?thesis by (simp add: resolveGoogleChatAccount_def)
qed

lemma objectEntries_alloc:
  "objectEntries v = Inr kvs \<Longrightarrow> allocatedIn b n v \<Longrightarrow> \<forall>kv\<in>set kvs. allocatedIn b n (snd kv)"
  by (cases v) (auto simp: objectEntries_def allocatedIn_JObj)

lemma resolveProviders_alloc:
  assumes "resolveProviders ext c s = (Inr c', s')" and "passInv b s"
    and "allocatedIn b (nextAddr s) c" and "pointerKeepsIdentity ext"
  shows "passInv b s' \<and> nextAddr s \<le> nextAddr s' \<and> allocatedIn b (nextAddr s') c'"
proof (cases "truthy (optProp (optProp c ''models'') ''providers'')")
  case False
  with assms show ?thesis by (simp add: resolveProviders_def Let_def)
next
  case True
  let ?m = "optProp c ''models''"
  let ?p = "optProp ?m ''providers''"
  from True assms(1) obtain entries "done" where e: "objectEntries ?p = Inr entries"
    and f: "forEntries (resolveProviderApiKey ext) entries s = (Inr done, s')"
    and c': "c' = withProp c ''models'' (withProp ?m ''providers'' (withEntries ?p done))"
    by (auto simp: resolveProviders_def Let_def andThen_eq_Inr)
  from assms(3) have am: "allocatedIn b (nextAddr s) ?m" and ap: "allocatedIn b (nextAddr s) ?p"
    by (simp_all add: allocatedIn_optProp)
  from forEntries_alloc[where body = "resolveProviderApiKey ext", OF _ f assms(2)
      objectEntries_alloc[OF e ap]] provider_alloc[OF _ _ _ assms(4)]
  have 1: "passInv b s'" "nextAddr s \<le> nextAddr s'"
    "\<forall>kv\<in>set done. allocatedIn b (nextAddr s') (snd kv)" by blast+
  from assms(3) am ap 1(2) have "allocatedIn b (nextAddr s') c" "allocatedIn b (nextAddr s') ?m"
    "allocatedIn b (nextAddr s') ?p" by (auto intro: allocatedIn_mono)
  with 1(3) have "allocatedIn b (nextAddr s') c'" unfolding c'
    by (intro allocatedIn_withProp allocatedIn_withEntries)
  with 1 show ?thesis by simp
qed

lemma resolveGoogleChatAccounts_alloc:
  assumes "resolveGoogleChatAccounts ext g s = (Inr g', s')" and "passInv b s"
    and "allocatedIn b (nextAddr s) g" and "pointerKeepsIdentity ext"
  shows "passInv b s' \<and> nextAddr s \<le> nextAddr s' \<and> allocatedIn b (nextAddr s') g'"
proof (cases "isRecord (optProp g ''accounts'')")
  case False
  with assms show ?thesis by (simp add: resolveGoogleChatAccounts_def)
next
  case True
  let ?a = "optProp g ''accounts''"
  from True assms(1) obtain entries "done" where e: "objectEntries ?a = Inr entries"
    and f: "forEntries (resolveGoogleChatAccount ext) entries s = (Inr done, s')"
    and g': "g' = withProp g ''accounts'' (withEntries ?a done)"
    by (auto simp: resolveGoogleChatAccounts_def Let_def andThen_eq_Inr)
  from assms(3) have aa: "allocatedIn b (nextAddr s) ?a" by (simp add: allocatedIn_optProp)
  from forEntries_alloc[where body = "resolveGoogleChatAccount ext", OF _ f assms(2)
      objectEntries_alloc[OF e aa]] googleChat_account_alloc[OF _ _ _ assms(4)]
  have 1: "passInv b s'" "nextAddr s \<le> nextAddr s'"
    "\<forall>kv\<in>set done. allocatedIn b (nextAddr s') (snd kv)" by blast+
  from assms(3) aa 1(2) have "allocatedIn b (nextAddr s') g" "allocatedIn b (nextAddr s') ?a"
    by (auto intro: allocatedIn_mono)
  with 1(3) have "allocatedIn b (nextAddr s') g'" unfolding g'
    by (intro allocatedIn_withProp allocatedIn_withEntries)
  with 1 show ?thesis by simp
qed

lemma resolveGoogleChat_alloc:
  assumes "resolveGoogleChat ext c s = (Inr c', s')" and "passInv b s"
    and "allocatedIn b (nextAddr s) c" and "pointerKeepsIdentity ext"
  shows "passInv b s' \<and> nextAddr s \<le> nextAddr s' \<and> allocatedIn b (nextAddr s') c'"
proof (cases "truthy (optProp (optProp c ''channels'') ''googlechat'')")
  case False
  with assms show ?thesis by (simp add: resolveGoogleChat_def Let_def)
next
  case True
  let ?ch = "optProp c ''channels''"
  let ?g = "optProp ?ch ''googlechat''"
  from True assms(1) obtain g1 s1 g2 where
    t: "resolveGoogleChatServiceAccount ext ?g ''channels.googlechat'' s = (Inr g1, s1)"
    and a: "resolveGoogleChatAccounts ext g1 s1 = (Inr g2, s')"
    and c': "c' = withProp c ''channels'' (withProp ?ch ''googlechat'' g2)"
    by (auto simp: resolveGoogleChat_def Let_def andThen_eq_Inr)
  from assms(3) have ach: "allocatedIn b (nextAddr s) ?ch" and ag: "allocatedIn b (nextAddr s) ?g"
    by (simp_all add: allocatedIn_optProp)
  from googleChat_target_alloc[OF t assms(2) ag assms(4)]
  have 1: "passInv b s1" "nextAddr s \<le> nextAddr s1" "allocatedIn b (nextAddr s1) g1" by simp_all
  from resolveGoogleChatAccounts_alloc[OF a 1(1,3) assms(4)]
  have 2: "passInv b s'" "nextAddr s1 \<le> nextAddr s'" "allocatedIn b (nextAddr s') g2" by simp_all
  from 1(2) 2(2) have le: "nextAddr s \<le> nextAddr s'" by simp
  from assms(3) ach le have "allocatedIn b (nextAddr s') c" "allocatedIn b (nextAddr s') ?ch"
    by (auto intro: allocatedIn_mono)
  with 2(3) have "allocatedIn b (nextAddr s') c'" unfolding c'
    by (intro allocatedIn_withProp)
  with 2 le show ?thesis by simp
qed

lemma configWalk_alloc:
  assumes "resolveConfigSecretRefs ext config s = (Inr resolved, s')" and "passInv b s"
    and "pointerKeepsIdentity ext"
  shows "passInv b s' \<and> nextAddr s \<le> nextAddr s' \<and> allocatedIn b (nextAddr s') resolved"
proof -
  obtain c n where c: "structuredClone config (nextAddr s) = (c, n)"
    by (cases "structuredClone config (nextAddr s)")
  from assms(1) c obtain r1 s1 where p: "resolveProviders ext c (s\<lparr>nextAddr := n\<rparr>) = (Inr r1, s1)"
    and g: "resolveGoogleChat ext r1 s1 = (Inr resolved, s')"
    by (auto simp: resolveConfigSecretRefs_def andThen_eq_Inr)
  from clone_pair[OF c] have le: "nextAddr s \<le> n" by simp
  from assms(2) have "b \<le> nextAddr s" by (simp add: passInv_def)
  from allocatedIn_clone[OF c this] have ac: "allocatedIn b (nextAddr (s\<lparr>nextAddr := n\<rparr>)) c" by simp
  from resolveProviders_alloc[OF p passInv_mono_next[OF assms(2) le] ac assms(3)]
  have 1: "passInv b s1" "n \<le> nextAddr s1" "allocatedIn b (nextAddr s1) r1" by simp_all
  from resolveGoogleChat_alloc[OF g 1(1,3) assms(3)] 1(2) le show ?thesis by simp
qed

lemma step_alloc:
  assumes "(t' = t \<and> s' = s)
       \<or> (\<exists>r s1 v s2. s1 \<in> {s, pushWarning pth m s}
            \<and> resolveSecretRefValue ext r s1 = (Inr v, s2)
            \<and> assignProp t k v s2 = (Inr t', s'))"
    and "passInv b s" and "allocatedIn b (nextAddr s) t" and "pointerKeepsIdentity ext"
  shows "passInv b s' \<and> nextAddr s \<le> nextAddr s' \<and> allocatedIn b (nextAddr s') t'"
proof (cases "t' = t \<and> s' = s")
  case True
  with assms show ?thesis by simp
next
  case False
  with assms(1) obtain r s1 v s2 where s1: "s1 \<in> {s, pushWarning pth m s}"
    and r: "resolveSecretRefValue ext r s1 = (Inr v, s2)"
    and a: "assignProp t k v s2 = (Inr t', s')" by blast
  from s1 assms(2) have i: "passInv b s1" by (auto intro: passInv_pushWarning)
  from s1 have le: "nextAddr s \<le> nextAddr s1" by (auto simp: pushWarning_def)
  from allocatedIn_mono[OF assms(3) le] have "allocatedIn b (nextAddr s1) t" .
  from resolve_assign_inv[OF r a i this assms(4)] le show ?thesis by simp
qed

lemma apiKeyProfile_Inr:
  assumes "resolveApiKeyProfile ext agentDir k p s = (Inr p', s')"
  shows "(p' = p \<and> s' = s)
       \<or> (\<exists>r s1 v s2. s1 \<in> {s, pushWarning (agentDir @ ''.auth-profiles.'' @ k @ ''.key'')
                 (''auth-profiles '' @ k @ '': keyRef is set; runtime will ignore plaintext key.'') s}
            \<and> resolveSecretRefValue ext r s1 = (Inr v, s2)
            \<and> assignProp p ''key'' v s2 = (Inr p', s'))"
  using assms
  by (auto simp: resolveApiKeyProfile_def Let_def andThen_eq_Inr split: option.splits if_splits)

lemma tokenProfile_Inr:
  assumes "resolveTokenProfile ext agentDir k p s = (Inr p', s')"
  shows "(p' = p \<and> s' = s)
       \<or> (\<exists>r s1 v s2. s1 \<in> {s, pushWarning (agentDir @ ''.auth-profiles.'' @ k @ ''.token'')
                 (''auth-profiles '' @ k @ '': tokenRef is set; runtime will ignore plaintext token.'') s}
            \<and> resolveSecretRefValue ext r s1 = (Inr v, s2)
            \<and> assignProp p ''token'' v s2 = (Inr p', s'))"
  using assms
  by (auto simp: resolveTokenProfile_def Let_def andThen_eq_Inr split: option.splits if_splits)

lemma profile_alloc:
  assumes "resolveProfile ext agentDir k p s = (Inr p', s')" and "passInv b s"
    and "allocatedIn b (nextAddr s) p" and "pointerKeepsIdentity ext"
  shows "passInv b s' \<and> nextAddr s \<le> nextAddr s' \<and> allocatedIn b (nextAddr s') p'"
proof -
  consider (api) "resolveApiKeyProfile ext agentDir k p s = (Inr p', s')"
    | (tok) "resolveTokenProfile ext agentDir k p s = (Inr p', s')"
    | (other) "p' = p" "s' = s"
    using assms(1)
    by (auto simp: resolveProfile_def andThen_eq_Inr split: if_splits)
  then show ?thesis
  proof cases
    case api
    from step_alloc[OF apiKeyProfile_Inr[OF api] assms(2,3,4)] show ?thesis .
  next
    case tok
    from step_alloc[OF tokenProfile_Inr[OF tok] assms(2,3,4)] show ?thesis .
  next
    case other
    with assms show ?thesis by simp
  qed
qed

lemma authStore_alloc:
  assumes "resolveAuthStoreSecretRefs ext store agentDir s = (Inr resolvedStore, s')"
    and "passInv b s" and "pointerKeepsIdentity ext"
  shows "passInv b s' \<and> nextAddr s \<le> nextAddr s' \<and> allocatedIn b (nextAddr s') resolvedStore"
proof -
  obtain c n where c: "structuredClone store (nextAddr s) = (c, n)"
    by (cases "structuredClone store (nextAddr s)")
  let ?s0 = "s\<lparr>nextAddr := n\<rparr>"
  let ?p = "optProp c ''profiles''"
  from assms(1) c obtain entries "done" where e: "objectEntries ?p = Inr entries"
    and f: "forEntries (resolveProfile ext agentDir) entries ?s0 = (Inr done, s')"
    and r: "resolvedStore = withProp c ''profiles'' (withEntries ?p done)"
    by (auto simp: resolveAuthStoreSecretRefs_def andThen_eq_Inr getProp_Inr)
  from clone_pair[OF c] have le: "nextAddr s \<le> n" by simp
  from assms(2) have "b \<le> nextAddr s" by (simp add: passInv_def)
  from allocatedIn_clone[OF c this] have ac: "allocatedIn b (nextAddr ?s0) c" by simp
  then have ap: "allocatedIn b (nextAddr ?s0) ?p" by (rule allocatedIn_optProp)
  from forEntries_alloc[where body = "resolveProfile ext agentDir", OF _ f
      passInv_mono_next[OF assms(2) le] objectEntries_alloc[OF e ap]]
    profile_alloc[OF _ _ _ assms(3)]
  have 1: "passInv b s'" "nextAddr ?s0 \<le> nextAddr s'"
    "\<forall>kv\<in>set done. allocatedIn b (nextAddr s') (snd kv)" by blast+
  from ac ap 1(2) have "allocatedIn b (nextAddr s') c" "allocatedIn b (nextAddr s') ?p"
    by (auto intro: allocatedIn_mono)
  with 1(3) have "allocatedIn b (nextAddr s') resolvedStore" unfolding r
    by (intro allocatedIn_withProp allocatedIn_withEntries)
  with 1 le show ?thesis by simp
qed

lemma authStores_alloc:
  "resolveAuthStores ext load dirs s = (Inr entries, s') \<Longrightarrow> passInv b s \<Longrightarrow>
   pointerKeepsIdentity ext \<Longrightarrow>
   passInv b s' \<and> nextAddr s \<le> nextAddr s'
   \<and> (\<forall>e\<in>set entries. \<forall>x\<in>entryAddrs e. b \<le> x \<and> x < nextAddr s')"
proof (induction dirs arbitrary: s entries)
  case Nil
  then show ?case by simp
next
  case (Cons d dirs)
  from Cons.prems(1) obtain rs s1 where
    a: "resolveAuthStoreSecretRefs ext (load d) d s = (Inr rs, s1)"
    by (auto simp: andThen_eq_Inr)
  let ?s2 = "s1\<lparr>nextAddr := Suc (nextAddr s1)\<rparr>"
  from Cons.prems(1) a obtain es where
    r: "resolveAuthStores ext load dirs ?s2 = (Inr es, s')"
    and en: "entries = \<lparr>entry_addr = nextAddr s1, entry_agentDir = d, entry_store = rs\<rparr> # es"
    by (auto simp: Let_def split: prod.splits sum.splits)
  from authStore_alloc[OF a Cons.prems(2,3)]
  have 1: "passInv b s1" "nextAddr s \<le> nextAddr s1" "allocatedIn b (nextAddr s1) rs" by simp_all
  from passInv_mono_next[OF 1(1), of "Suc (nextAddr s1)"] have i2: "passInv b ?s2" by simp
  from Cons.IH[OF r i2 Cons.prems(3)]
  have 2: "passInv b s'" "Suc (nextAddr s1) \<le> nextAddr s'"
    "\<forall>e\<in>set es. \<forall>x\<in>entryAddrs e. b \<le> x \<and> x < nextAddr s'" by simp_all
  from 1(1) have "b \<le> nextAddr s1" by (simp add: passInv_def)
  with 1(3) 2(2) have "\<forall>x\<in>entryAddrs \<lparr>entry_addr = nextAddr s1, entry_agentDir = d, entry_store = rs\<rparr>.
      b \<le> x \<and> x < nextAddr s'"
    by (fastforce simp: entryAddrs_def allocatedIn_def)
  with 1 2 en show ?case by simp
qed

lemma passInv_newPass: "passInv b (newPass c e b)"
  by (simp add: passInv_def newPass_def)

lemma prepare_Inr:
  assumes "prepareSecretsRuntimeSnapshot ext params n = (Inr snapshot, st')"
  shows "\<exists>st1 load dirs authStores st2 sourceConfig n1.
           resolveConfigSecretRefs ext (p_config params)
               (newPass (p_config params) (paramsEnv ext params) (Suc n))
             = (Inr (snap_config snapshot), st1)
           \<and> resolveAuthStores ext load dirs (st1\<lparr>nextAddr := Suc (nextAddr st1)\<rparr>)
               = (Inr authStores, st2)
           \<and> structuredClone (p_config params) (nextAddr st2) = (sourceConfig, n1)
           \<and> snapshot = \<lparr> snap_addr = n1, snap_sourceConfig = sourceConfig,
                           snap_config = snap_config snapshot,
                           snap_authStoresAddr = nextAddr st1, snap_authStores = authStores,
                           snap_warningsAddr = n, snap_warnings = warnings st2 \<rparr>
           \<and> st' = st2\<lparr>nextAddr := Suc n1\<rparr>"
proof -
  let ?P = "newPass (p_config params) (paramsEnv ext params) (Suc n)"
  from assms obtain resolved st1 where
    w: "resolveConfigSecretRefs ext (p_config params) ?P = (Inr resolved, st1)"
    by (auto simp: prepareSecretsRuntimeSnapshot_def Let_def andThen_eq_Inr paramsEnv_def)
  let ?load = "case p_loadAuthStore params of
                 Some f \<Rightarrow> f | None \<Rightarrow> loadAuthProfileStoreForRuntime ext"
  let ?dirs = "case p_agentDirs params of
                 Some (d # ds) \<Rightarrow> dedupe (map (\<lambda>entry. resolveUserPath ext (JStr entry)) (d # ds))
               | _ \<Rightarrow> collectCandidateAgentDirs ext resolved"
  let ?s1 = "st1\<lparr>nextAddr := Suc (nextAddr st1)\<rparr>"
  from assms w obtain authStores st2 where
    a: "resolveAuthStores ext ?load ?dirs ?s1 = (Inr authStores, st2)"
    by (auto simp: prepareSecretsRuntimeSnapshot_def Let_def andThen_eq_Inr paramsEnv_def)
  obtain sourceConfig n1 where c: "structuredClone (p_config params) (nextAddr st2) = (sourceConfig, n1)"
    by (cases "structuredClone (p_config params) (nextAddr st2)")
  from assms w a c have
    "snapshot = \<lparr> snap_addr = n1, snap_sourceConfig = sourceConfig, snap_config = resolved,
                   snap_authStoresAddr = nextAddr st1, snap_authStores = authStores,
                   snap_warningsAddr = n, snap_warnings = warnings st2 \<rparr>"
    and "st' = st2\<lparr>nextAddr := Suc n1\<rparr>"
    by (simp_all add: prepareSecretsRuntimeSnapshot_def Let_def paramsEnv_def)
  with w a c show ?thesis by auto
qed

lemma prepare_separate:
  assumes p: "prepareSecretsRuntimeSnapshot ext params n = (Inr snapshot, st')"
    and old: "\<forall>x\<in>set_jv (p_config params). x < n"
    and ptr: "pointerKeepsIdentity ext"
  shows "deepEqual (snap_sourceConfig snapshot) (p_config params)"
    and "\<forall>x\<in>snapshotAddrs snapshot. n \<le> x"
    and "\<forall>x\<in>set (assigned st'). n < x"
proof -
  from prepare_Inr[OF p] obtain st1 load dirs authStores st2 sourceConfig n1 where
    w: "resolveConfigSecretRefs ext (p_config params)
          (newPass (p_config params) (paramsEnv ext params) (Suc n))
        = (Inr (snap_config snapshot), st1)"
    and a: "resolveAuthStores ext load dirs (st1\<lparr>nextAddr := Suc (nextAddr st1)\<rparr>)
              = (Inr authStores, st2)"
    and c: "structuredClone (p_config params) (nextAddr st2) = (sourceConfig, n1)"
    and sn: "snapshot = \<lparr> snap_addr = n1, snap_sourceConfig = sourceConfig,
                           snap_config = snap_config snapshot,
                           snap_authStoresAddr = nextAddr st1, snap_authStores = authStores,
                           snap_warningsAddr = n, snap_warnings = warnings st2 \<rparr>"
    and st': "st' = st2\<lparr>nextAddr := Suc n1\<rparr>" by blast
  let ?b = "Suc n"
  from configWalk_alloc[OF w passInv_newPass ptr]
  have 1: "passInv ?b st1" "allocatedIn ?b (nextAddr st1) (snap_config snapshot)" by simp_all
  from passInv_mono_next[OF 1(1), of "Suc (nextAddr st1)"]
  have "passInv ?b (st1\<lparr>nextAddr := Suc (nextAddr st1)\<rparr>)" by simp
  from authStores_alloc[OF a this ptr]
  have 2: "passInv ?b st2" "\<forall>e\<in>set authStores. \<forall>x\<in>entryAddrs e. ?b \<le> x \<and> x < nextAddr st2"
    by simp_all
  from clone_pair[OF c] have 3: "erase sourceConfig = erase (p_config params)"
    "nextAddr st2 \<le> n1" "\<forall>x\<in>set_jv sourceConfig. nextAddr st2 \<le> x \<and> x < n1" by simp_all
  from 1(1) 2(1) have b: "?b \<le> nextAddr st1" "?b \<le> nextAddr st2" by (simp_all add: passInv_def)
  from 3(1) sn show "deepEqual (snap_sourceConfig snapshot) (p_config params)"
    by (metis deepEqual_def PreparedSecretsRuntimeSnapshot.select_convs(2))
  have sc: "snap_sourceConfig snapshot = sourceConfig" "snap_authStores snapshot = authStores"
    "snap_warnings snapshot = warnings st2" "snap_addr snapshot = n1"
    "snap_authStoresAddr snapshot = nextAddr st1" "snap_warningsAddr snapshot = n"
    by (subst sn, simp)+
  show "\<forall>x\<in>snapshotAddrs snapshot. n \<le> x"
  proof
    fix x assume "x \<in> snapshotAddrs snapshot"
    then consider "x = n1" | "x = nextAddr st1" | "x = n" | "x \<in> set_jv sourceConfig"
      | "x \<in> set_jv (snap_config snapshot)"
      | e where "e \<in> set authStores" "x \<in> entryAddrs e"
      | w where "w \<in> set (warnings st2)" "x = w_addr w"
      unfolding snapshotAddrs_def sc by auto
    then show "n \<le> x"
    proof cases
      case 4 with 3(3) b show ?thesis by force
    next
      case 5 with 1(2) show ?thesis by (force simp: allocatedIn_def)
    next
      case 6 with 2(2) show ?thesis by force
    next
      case 7 with 2(1) show ?thesis by (force simp: passInv_def)
    qed (use b 3(2) in simp_all)
  qed
  from 2(1) show "\<forall>x\<in>set (assigned st'). n < x"
    unfolding st' by (force simp: passInv_def)
qed

lemma set_jv_optProp: "set_jv (optProp v k) \<subseteq> set_jv v"
  by (cases v) (auto simp: optProp_def prod_set_defs dest!: map_of_SomeD split: option.splits)

lemma exampleExternals_pointer: "pointerKeepsIdentity exampleExternals"
  unfolding pointerKeepsIdentity_def exampleExternals_def testExternals_sel
proof (intro allI impI)
  fix payload :: "nat jv" and pointer v
  assume "(case optProp payload (drop 1 pointer) of
             JUndefined \<Rightarrow> Inl MissingSecret | w \<Rightarrow> Inr w) = Inr v"
  then have "v = optProp payload (drop 1 pointer)"
    by (cases "optProp payload (drop 1 pointer)") auto
  then show "set_jv v \<subseteq> set_jv payload" by (simp add: set_jv_optProp)
qed

text \<open>Claim C6. A call of \<open>prepare\<close> that succeeds, on an input configuration whose objects
  exist already (their identities lie below the allocator), with a pointer lookup that
  returns parts of the payload it is given: the snapshot's \<open>sourceConfig\<close> is deep-equal to
  the input, references included; the resolved configuration, and the whole snapshot, has
  no object in common with the input; no object of the input was assigned to, so the input
  is as it was; and the resolved configuration is the result of the configuration walk on
  the input. The witness runs the example of the specification: the provider key of the
  resolved configuration is the string from the environment, while \<open>sourceConfig\<close> still
  holds the reference.\<close>

theorem prepare_leaves_input_untouched:
  assumes "prepareSecretsRuntimeSnapshot ext params n = (Inr snapshot, st')"
    and "\<forall>x\<in>set_jv (p_config params). x < n"
    and "pointerKeepsIdentity ext"
  shows "deepEqual (snap_sourceConfig snapshot) (p_config params)
       \<and> set_jv (snap_config snapshot) \<inter> set_jv (p_config params) = {}
       \<and> snapshotAddrs snapshot \<inter> set_jv (p_config params) = {}
       \<and> set (assigned st') \<inter> set_jv (p_config params) = {}
       \<and> (\<forall>a\<in>set (assigned st'). \<forall>k v. assignAt a k v (p_config params) = p_config params)
       \<and> (\<exists>st1. resolveConfigSecretRefs ext (p_config params)
                   (newPass (p_config params) (paramsEnv ext params) (Suc n))
                 = (Inr (snap_config snapshot), st1))"
proof -
  note S = prepare_separate[OF assms]
  from S(2) assms(2) have d: "snapshotAddrs snapshot \<inter> set_jv (p_config params) = {}"
    by fastforce
  have "set_jv (snap_config snapshot) \<subseteq> snapshotAddrs snapshot"
    by (auto simp: snapshotAddrs_def)
  with d have c: "set_jv (snap_config snapshot) \<inter> set_jv (p_config params) = {}" by blast
  from S(3) assms(2) have a: "set (assigned st') \<inter> set_jv (p_config params) = {}"
    by fastforce
  then have m: "\<forall>a\<in>set (assigned st'). \<forall>k v. assignAt a k v (p_config params) = p_config params"
    by (auto intro!: assignAt_absent(1))
  from prepare_Inr[OF assms(1)] have
    "\<exists>st1. resolveConfigSecretRefs ext (p_config params)
                   (newPass (p_config params) (paramsEnv ext params) (Suc n))
                 = (Inr (snap_config snapshot), st1)" by blast
  with S(1) d c a m show ?thesis by blast
qed

lemma acmeParams_prepare:
  "prepareSecretsRuntimeSnapshot exampleExternals acmeParams 10
   = (Inr acmeSnapshot, snd (prepareSecretsRuntimeSnapshot exampleExternals acmeParams 10))"
proof -
  have "fst (prepareSecretsRuntimeSnapshot exampleExternals acmeParams 10) = Inr acmeSnapshot"
    by code_simp
  then show ?thesis by (simp add: prod_eq_iff)
qed

lemma acmeParams_allocated: "\<forall>x\<in>set_jv (p_config acmeParams). x < 10"
  by code_simp

lemma acmeSnapshot_keys:
  "apiKeyOf (snap_config acmeSnapshot) ''acme'' = JStr ''secret123''"
  "apiKeyOf (snap_sourceConfig acmeSnapshot) ''acme''
     = JObj 32 False [(''source'', JStr ''env''), (''id'', JStr ''ACME_KEY'')]"
  "apiKeyOf acmeConfig ''acme'' = JObj 4 False [(''source'', JStr ''env''), (''id'', JStr ''ACME_KEY'')]"
  "p_config acmeParams = acmeConfig"
  by (simp_all add: apiKeyOf_def acmeSnapshot_def acmeConfig_def acmeParams_def optProp_def)

theorem prepare_leaves_input_untouched_witness:
  "fst (prepareSecretsRuntimeSnapshot exampleExternals acmeParams 10) = Inr acmeSnapshot
   \<and> apiKeyOf (snap_config acmeSnapshot) ''acme'' = JStr ''secret123''
   \<and> deepEqual (apiKeyOf (snap_sourceConfig acmeSnapshot) ''acme'') (apiKeyOf acmeConfig ''acme'')
   \<and> deepEqual (snap_sourceConfig acmeSnapshot) acmeConfig
   \<and> set_jv (snap_config acmeSnapshot) \<inter> set_jv acmeConfig = {}
   \<and> snapshotAddrs acmeSnapshot \<inter> set_jv acmeConfig = {}
   \<and> set (assigned (snd (prepareSecretsRuntimeSnapshot exampleExternals acmeParams 10)))
       \<inter> set_jv acmeConfig = {}"
proof -
  have "fst (prepareSecretsRuntimeSnapshot exampleExternals acmeParams 10) = Inr acmeSnapshot"
    using acmeParams_prepare by (metis fst_conv)
  then show ?thesis
    using prepare_leaves_input_untouched[OF acmeParams_prepare acmeParams_allocated
        exampleExternals_pointer]
    by (simp add: acmeSnapshot_keys deepEqual_def)
qed

section \<open>What a pass has resolved stays resolved\<close>

lemma later_refl [simp]: "later s s"
  by (simp add: later_def split: option.splits)

lemma later_trans: "later s t \<Longrightarrow> later t u \<Longrightarrow> later s u"
  by (auto simp: later_def split: option.splits)

lemma later_context: "later s t \<Longrightarrow> resolverContext u = resolverContext t \<Longrightarrow> later s u"
  by (simp add: later_def split: option.splits)

lemma later_pushWarning: "later s t \<Longrightarrow> later s (pushWarning p m t)"
  by (rule later_context) (simp_all add: pushWarning_sel)

lemma ensure_slot:
  "fileSecretsPromise (resolverContext (snd (ensureFileSecrets ext s)))
     = Some (fst (ensureFileSecrets ext s))"
proof (cases "fileSecretsPromise (resolverContext s)")
  case None
  obtain q st0 where d: "decryptSopsFile ext (ctx_config (resolverContext s)) s = (q, st0)"
    by (cases "decryptSopsFile ext (ctx_config (resolverContext s)) s")
  from ensure_uncached[OF None d] show ?thesis by simp
next
  case (Some q)
  with ensure_cached[OF Some, of ext] show ?thesis by simp
qed

lemma resolve_later:
  assumes "resolveSecretRefValue ext r s = (out, s')"
  shows "later s s'"
proof -
  from resolve_calls[OF assms] resolve_frame(3,4)[OF assms] show ?thesis
    by (auto simp: later_def split: option.splits)
qed

lemma resolve_stable:
  assumes r: "resolveSecretRefValue ext r s = (out, s')" and l: "later s' t"
  shows "fst (resolveSecretRefValue ext r t) = out"
proof -
  from resolve_frame(3,4)[OF r] l
  have env: "ctx_env (resolverContext t) = ctx_env (resolverContext s)"
    by (simp add: later_def)
  show ?thesis
  proof (cases "ref_source r = ''file'' \<and> trim (ref_id r) \<noteq> []")
    case True
    with r resolve_file[of r ext s]
    have out: "out = readFromPromise ext (fst (ensureFileSecrets ext s)) (trim (ref_id r))"
      and s': "s' = snd (ensureFileSecrets ext s)" by simp_all
    from ensure_slot[of ext s] s' l
    have "fileSecretsPromise (resolverContext t) = Some (fst (ensureFileSecrets ext s))"
      by (simp add: later_def)
    from ensure_cached[OF this, of ext] True resolve_file[of r ext t] out show ?thesis by simp
  next
    case False
    with r env show ?thesis
      by (auto simp: resolveSecretRefValue_def Let_def split: if_splits)
  qed
qed

lemma assignProp_later: "assignProp target k v s = (out, s') \<Longrightarrow> later s s'"
  using assignProp_frame[of target k v s out s'] by (simp add: later_def split: option.splits)

lemma andThen_eq_Inl:
  "andThen m f = (Inl e, st') \<longleftrightarrow>
     m = (Inl e, st') \<or> (\<exists>x st1. m = (Inr x, st1) \<and> f x st1 = (Inl e, st'))"
  by (cases m; cases "fst m") (auto simp: andThen_def)

text \<open>One resolution followed by an assignment, as every loop body has it.\<close>

lemma step_ok:
  assumes r: "resolveSecretRefValue ext ref s1 = (Inr v, s2)"
    and a: "assignProp target k v s2 = (Inr t', s')"
    and l: "later s s1"
  shows "later s s'" and "later s' t \<Longrightarrow> fst (resolveSecretRefValue ext ref t) = Inr v"
    and "t' = withProp target k v" and "optProp t' k = v" and "isObject target"
proof -
  from resolve_later[OF r] assignProp_later[OF a] have l2: "later s1 s2" "later s2 s'" .
  with l show "later s s'" by (blast intro: later_trans)
  show "later s' t \<Longrightarrow> fst (resolveSecretRefValue ext ref t) = Inr v"
    using resolve_stable[OF r] l2(2) by (blast intro: later_trans)
  from assignProp_withProp[OF a] show "t' = withProp target k v" "optProp t' k = v" by blast+
  from a show "isObject target" by (auto simp: assignProp_Inr isObject_def)
qed

lemma step_failed:
  assumes r: "resolveSecretRefValue ext ref s1 = (Inl e, s2)"
  shows "fst (resolveSecretRefValue ext ref s2) = Inl e"
  using resolve_stable[OF r later_refl] .

lemma step_value:
  assumes r: "resolveSecretRefValue ext ref s1 = (Inr v, s2)"
  shows "fst (resolveSecretRefValue ext ref s2) = Inr v"
  using resolve_stable[OF r later_refl] .

lemma assignProp_Inl:
  "assignProp target k v s = (Inl e, s') \<longleftrightarrow> \<not> isObject target \<and> e = TypeError \<and> s' = s"
  by (cases target) (auto simp: assignProp_def isObject_def)

lemma forEntries_final:
  assumes step: "\<And>k v s v' s'. body k v s = (Inr v', s') \<Longrightarrow>
                   later s s' \<and> (\<forall>t. later s' t \<longrightarrow> R t k v v')"
  shows "forEntries body kvs st = (Inr done, st') \<Longrightarrow>
         later st st'
         \<and> (\<forall>t. later st' t \<longrightarrow>
               list_all2 (\<lambda>kv kv'. fst kv' = fst kv \<and> R t (fst kv) (snd kv) (snd kv')) kvs done)"
proof (induction kvs arbitrary: st "done")
  case Nil
  then show ?case by simp
next
  case (Cons kv rest)
  from Cons.prems obtain v st1 done1 where b: "body (fst kv) (snd kv) st = (Inr v, st1)"
    and r: "forEntries body rest st1 = (Inr done1, st')" and d: "done = (fst kv, v) # done1"
    unfolding forEntries_Cons_Inr by blast
  from step[OF b] have h: "later st st1" "\<And>t. later st1 t \<Longrightarrow> R t (fst kv) (snd kv) v"
    by simp_all
  from Cons.IH[OF r] have ih: "later st1 st'"
    "\<And>t. later st' t \<Longrightarrow>
       list_all2 (\<lambda>kv kv'. fst kv' = fst kv \<and> R t (fst kv) (snd kv) (snd kv')) rest done1"
    by simp_all
  from h(1) ih(1) have "later st st'" by (rule later_trans)
  moreover have "list_all2 (\<lambda>kv kv'. fst kv' = fst kv \<and> R t (fst kv) (snd kv) (snd kv'))
                   (kv # rest) done" if t: "later st' t" for t
    using h(2)[OF later_trans[OF ih(1) t]] ih(2)[OF t] d by simp
  ultimately show ?case by blast
qed

lemma forEntries_failed:
  assumes mono: "\<And>k v s r s'. body k v s = (r, s') \<Longrightarrow> later s s'"
  shows "forEntries body kvs st = (Inl e, st') \<Longrightarrow>
         \<exists>kv s. kv \<in> set kvs \<and> later st s \<and> body (fst kv) (snd kv) s = (Inl e, st')"
proof (induction kvs arbitrary: st)
  case Nil
  then show ?case by simp
next
  case (Cons kv rest)
  obtain r st1 where b: "body (fst kv) (snd kv) st = (r, st1)"
    by (cases "body (fst kv) (snd kv) st")
  show ?case
  proof (cases r)
    case (Inl e')
    with b Cons.prems have "body (fst kv) (snd kv) st = (Inl e, st')" by simp
    then show ?thesis by (intro exI[of _ kv] exI[of _ st]) simp
  next
    case (Inr v)
    with b Cons.prems have "forEntries body rest st1 = (Inl e, st')"
      by (auto split: prod.splits sum.splits)
    from Cons.IH[OF this] obtain kv' s where "kv' \<in> set rest" "later st1 s"
      "body (fst kv') (snd kv') s = (Inl e, st')" by blast
    with later_trans[OF mono[OF b]] show ?thesis
      by (intro exI[of _ kv'] exI[of _ s]) simp
  qed
qed

lemma forEntries_later:
  assumes mono: "\<And>k v s r s'. body k v s = (r, s') \<Longrightarrow> later s s'"
  shows "later st (snd (forEntries body kvs st))"
  using forEntries_inv[of body "later st" st kvs] mono by (blast intro: later_trans later_refl)

section \<open>The walk over the providers\<close>

lemma provider_cases:
  "resolveProviderApiKey ext k p s =
     (if p = JNull \<or> p = JUndefined then (Inl TypeError, s)
      else case asSecretRef ext (optProp p ''apiKey'') of
             None \<Rightarrow> (Inr p, s)
           | Some ref \<Rightarrow>
               (case resolveSecretRefValue ext ref s of
                  (Inl e, s1) \<Rightarrow> (Inl e, s1)
                | (Inr v, s1) \<Rightarrow>
                    if \<not> isNonEmptyString v then (Inl InvalidResolvedValue, s1)
                    else assignProp p ''apiKey'' v s1))"
  by (cases p)
     (auto simp: resolveProviderApiKey_def getProp_def andThen_def
        split: option.splits prod.splits sum.splits)

lemma provider_later: "resolveProviderApiKey ext k p s = (r, s') \<Longrightarrow> later s s'"
  by (auto simp: provider_cases split: if_splits option.splits prod.splits sum.splits
      dest: resolve_later assignProp_later intro: later_trans)

lemma provider_ok:
  assumes b: "resolveProviderApiKey ext k p s = (Inr p', s')" and t: "later s' t"
  shows "providerResolved ext t (k, p) (k, p')" and "providerKeyResolves ext t (k, p)"
proof -
  from b have rd: "p \<noteq> JNull" "p \<noteq> JUndefined" by (auto simp: provider_cases split: if_splits)
  from provider_entry_Inr[OF b]
  have "providerResolved ext t (k, p) (k, p') \<and> providerKeyResolves ext t (k, p)"
  proof (elim disjE exE conjE)
    assume "asSecretRef ext (optProp p ''apiKey'') = None" "p' = p" "s' = s"
    with rd show ?thesis
      by (simp add: providerResolved_def providerKeyResolves_def deepEqual_def)
  next
    fix ref v s1
    assume r: "asSecretRef ext (optProp p ''apiKey'') = Some ref"
      and v: "resolveSecretRefValue ext ref s = (Inr v, s1)" "isNonEmptyString v"
      and a: "assignProp p ''apiKey'' v s1 = (Inr p', s')"
    note st = step_ok[OF v(1) a later_refl]
    from st(2)[OF t] st(3,4,5) r v(2) rd show ?thesis
      by (simp add: providerResolved_def providerKeyResolves_def deepEqual_def resolvesToString_def)
  qed
  then show "providerResolved ext t (k, p) (k, p')" and "providerKeyResolves ext t (k, p)"
    by simp_all
qed

lemma provider_failed:
  assumes b: "resolveProviderApiKey ext k p s = (Inl e, s')"
  shows "\<not> providerKeyResolves ext s' (k, p)"
proof (cases "p = JNull \<or> p = JUndefined")
  case True
  then show ?thesis by (auto simp: providerKeyResolves_def)
next
  case False
  show ?thesis
  proof (cases "asSecretRef ext (optProp p ''apiKey'')")
    case None
    with False b show ?thesis by (simp add: provider_cases)
  next
    case (Some ref)
    obtain r s1 where rs: "resolveSecretRefValue ext ref s = (r, s1)"
      by (cases "resolveSecretRefValue ext ref s")
    show ?thesis
    proof (cases r)
      case (Inl e')
      with rs False Some b have "s' = s1" by (simp add: provider_cases)
      with step_failed[of ext ref s e' s1] rs Inl Some show ?thesis
        by (simp add: providerKeyResolves_def resolvesToString_def)
    next
      case (Inr v)
      show ?thesis
      proof (cases "isNonEmptyString v")
        case False
        with rs Inr \<open>\<not> (p = JNull \<or> p = JUndefined)\<close> Some b have "s' = s1"
          by (simp add: provider_cases)
        with step_value[of ext ref s v s1] rs Inr Some False show ?thesis
          by (simp add: providerKeyResolves_def resolvesToString_def)
      next
        case True
        with rs Inr False Some b have "assignProp p ''apiKey'' v s1 = (Inl e, s')"
          by (simp add: provider_cases)
        then have "\<not> isObject p" by (simp add: assignProp_Inl)
        with Some show ?thesis by (simp add: providerKeyResolves_def)
      qed
    qed
  qed
qed

lemma list_all2_left: "list_all2 (\<lambda>x y. S x y \<and> Q x) xs ys \<Longrightarrow> list_all Q xs"
  by (induction xs ys rule: list_all2_induct) simp_all

lemma providers_primitive:
  "truthy p \<Longrightarrow> \<not> isObject p \<Longrightarrow> objectEntries p = Inr [] \<and> withEntries p kvs = p"
  by (cases p) (simp_all add: truthy_def isObject_def objectEntries_def withEntries_def)

lemma truthy_optProp_D: "truthy (optProp v k) \<Longrightarrow> \<exists>a arr kvs. v = JObj a arr kvs"
  by (cases v) (simp_all add: optProp_def truthy_def)

lemma providerEntries_truthy:
  "truthy (optProp (optProp c ''models'') ''providers'') \<Longrightarrow>
   objectEntries (optProp (optProp c ''models'') ''providers'') = Inr (providerEntries c)"
  by (cases "optProp (optProp c ''models'') ''providers''")
     (simp_all add: providerEntries_def objectEntries_def truthy_def)

lemma providerEntries_falsy:
  "\<not> truthy (optProp (optProp c ''models'') ''providers'') \<Longrightarrow> providerEntries c = []"
  by (simp add: providerEntries_def)

lemma resolveProviders_loop:
  assumes "resolveProviders ext c st = (r, st1)"
  shows "forEntries (resolveProviderApiKey ext) (providerEntries c) st
           = (map_sum id (\<lambda>_. providerEntries (case r of Inr r1 \<Rightarrow> r1)) r, st1)"
proof (cases "truthy (optProp (optProp c ''models'') ''providers'')")
  case False
  with assms show ?thesis
    by (auto simp: resolveProviders_def Let_def providerEntries_falsy)
next
  case True
  let ?models = "optProp c ''models''"
  let ?providers = "optProp ?models ''providers''"
  from truthy_optProp_D[OF True] obtain ma marr mkvs where m: "?models = JObj ma marr mkvs"
    by blast
  then obtain ca carr ckvs where c: "c = JObj ca carr ckvs"
    by (cases c) (auto simp: optProp_def)
  note e = providerEntries_truthy[OF True]
  obtain out s2 where f: "forEntries (resolveProviderApiKey ext) (providerEntries c) st = (out, s2)"
    by (cases "forEntries (resolveProviderApiKey ext) (providerEntries c) st")
  show ?thesis
  proof (cases out)
    case (Inl err)
    with assms True e f show ?thesis by (auto simp: resolveProviders_def Let_def)
  next
    case (Inr es)
    with assms True e f have r: "r = Inr (withProp c ''models''
        (withProp ?models ''providers'' (withEntries ?providers es)))" and s: "st1 = s2"
      by (auto simp: resolveProviders_def Let_def)
    have p: "optProp (optProp (withProp c ''models''
        (withProp ?models ''providers'' (withEntries ?providers es))) ''models'') ''providers''
        = withEntries ?providers es"
      unfolding m unfolding c by (simp add: optProp_withProp_same)
    have "providerEntries (withProp c ''models''
        (withProp ?models ''providers'' (withEntries ?providers es))) = es"
    proof (cases "isObject ?providers")
      case True
      then obtain a arr kvs where "?providers = JObj a arr kvs"
        by (cases ?providers) (auto simp: isObject_def)
      then show ?thesis unfolding providerEntries_def Let_def p
        by (simp add: withEntries_def truthy_def objectEntries_def)
    next
      case False
      from providers_primitive[OF True False] e have "providerEntries c = []" by simp
      with f Inr have "es = []" by simp
      with providers_primitive[OF True False, of es] True show ?thesis
        unfolding providerEntries_def Let_def p by simp
    qed
    with r s f Inr show ?thesis by simp
  qed
qed

lemma resolveProviders_ok:
  assumes "resolveProviders ext c st = (Inr r1, st1)"
  shows "later st st1"
    and "later st1 t \<Longrightarrow> list_all (providerKeyResolves ext t) (providerEntries c)"
    and "later st1 t \<Longrightarrow> list_all2 (providerResolved ext t) (providerEntries c) (providerEntries r1)"
proof -
  from resolveProviders_loop[OF assms]
  have f: "forEntries (resolveProviderApiKey ext) (providerEntries c) st
             = (Inr (providerEntries r1), st1)" by simp
  have *: "later st st1 \<and> (\<forall>t. later st1 t \<longrightarrow>
      list_all2 (\<lambda>kv kv'. fst kv' = fst kv
         \<and> (providerResolved ext t (fst kv, snd kv) (fst kv, snd kv')
            \<and> providerKeyResolves ext t (fst kv, snd kv)))
        (providerEntries c) (providerEntries r1))"
    by (rule forEntries_final[OF _ f]) (auto dest: provider_later provider_ok)
  then show "later st st1" by simp
  assume t: "later st1 t"
  with * have l: "list_all2 (\<lambda>kv kv'. fst kv' = fst kv
         \<and> (providerResolved ext t (fst kv, snd kv) (fst kv, snd kv')
            \<and> providerKeyResolves ext t (fst kv, snd kv)))
        (providerEntries c) (providerEntries r1)" by simp
  then show "list_all (providerKeyResolves ext t) (providerEntries c)"
    by (intro list_all2_left[where S = "\<lambda>kv kv'. fst kv' = fst kv
         \<and> providerResolved ext t (fst kv, snd kv) (fst kv, snd kv')"
         and ys = "providerEntries r1"]) (auto elim!: list_all2_mono)
  from l show "list_all2 (providerResolved ext t) (providerEntries c) (providerEntries r1)"
    by (rule list_all2_mono) (auto simp: providerResolved_def split: option.splits)
qed

lemma resolveProviders_failed:
  assumes "resolveProviders ext c st = (Inl e, st1)"
  shows "\<not> list_all (providerKeyResolves ext st1) (providerEntries c)"
proof -
  from resolveProviders_loop[OF assms]
  have "forEntries (resolveProviderApiKey ext) (providerEntries c) st = (Inl e, st1)" by simp
  from forEntries_failed[OF _ this, of ] obtain kv s where
    "kv \<in> set (providerEntries c)" "resolveProviderApiKey ext (fst kv) (snd kv) s = (Inl e, st1)"
    using provider_later by blast
  with provider_failed[of ext "fst kv" "snd kv" s e st1] show ?thesis
    by (auto simp: list_all_iff)
qed

section \<open>The walk over the Google Chat targets\<close>

lemma target_cases:
  "resolveGoogleChatServiceAccount ext t path s =
     (case chosenRef ext t of
        None \<Rightarrow> (Inr t, s)
      | Some r \<Rightarrow>
          (case resolveSecretRefValue ext r
                  (if googleChatOverride ext t
                   then pushWarning path (googleChatOverrideMessage path) s else s) of
             (Inl e, s2) \<Rightarrow> (Inl e, s2)
           | (Inr v, s2) \<Rightarrow> assignProp t ''serviceAccount'' v s2))"
  by (auto simp: resolveGoogleChatServiceAccount_def Let_def chosenRef_def googleChatOverride_def
      googleChatOverrideMessage_def andThen_def split: option.splits prod.splits sum.splits)

lemma override_later:
  "later s (if googleChatOverride ext t
            then pushWarning path (googleChatOverrideMessage path) s else s)"
  by (simp add: later_pushWarning)

lemma target_later:
  assumes "resolveGoogleChatServiceAccount ext t path s = (r, s')"
  shows "later s s'"
proof (cases "chosenRef ext t")
  case None
  with assms show ?thesis by (simp add: target_cases)
next
  case (Some ref)
  let ?s1 = "if googleChatOverride ext t
             then pushWarning path (googleChatOverrideMessage path) s else s"
  obtain out s2 where rs: "resolveSecretRefValue ext ref ?s1 = (out, s2)"
    by (cases "resolveSecretRefValue ext ref ?s1")
  from resolve_later[OF rs] override_later[of s ext t path] have l: "later s s2"
    by (blast intro: later_trans)
  show ?thesis
  proof (cases out)
    case (Inl e)
    with assms Some rs l show ?thesis by (simp add: target_cases)
  next
    case (Inr v)
    with assms Some rs have "assignProp t ''serviceAccount'' v s2 = (r, s')"
      by (simp add: target_cases)
    from assignProp_later[OF this] l show ?thesis by (blast intro: later_trans)
  qed
qed

lemma target_ok:
  assumes b: "resolveGoogleChatServiceAccount ext t path s = (Inr t', s')" and u: "later s' u"
  shows "serviceAccountResolved ext u t t'" and "serviceAccountResolves ext u t"
proof -
  have "serviceAccountResolved ext u t t' \<and> serviceAccountResolves ext u t"
  proof (cases "chosenRef ext t")
    case None
    with b show ?thesis
      by (simp add: target_cases serviceAccountResolved_def serviceAccountResolves_def deepEqual_def)
  next
    case (Some ref)
    let ?s1 = "if googleChatOverride ext t
               then pushWarning path (googleChatOverrideMessage path) s else s"
    obtain out s2 where rs: "resolveSecretRefValue ext ref ?s1 = (out, s2)"
      by (cases "resolveSecretRefValue ext ref ?s1")
    with b Some obtain v where v: "out = Inr v"
      and a: "assignProp t ''serviceAccount'' v s2 = (Inr t', s')"
      by (cases out) (simp_all add: target_cases)
    from rs v have r: "resolveSecretRefValue ext ref ?s1 = (Inr v, s2)" by simp
    note st = step_ok[OF r a override_later]
    from st(2)[OF u] st(4,5) Some show ?thesis
      by (simp add: serviceAccountResolved_def serviceAccountResolves_def resolves_def)
  qed
  then show "serviceAccountResolved ext u t t'" and "serviceAccountResolves ext u t" by simp_all
qed

lemma target_failed:
  assumes b: "resolveGoogleChatServiceAccount ext t path s = (Inl e, s')"
  shows "\<not> serviceAccountResolves ext s' t"
proof (cases "chosenRef ext t")
  case None
  with b show ?thesis by (simp add: target_cases)
next
  case (Some ref)
  let ?s1 = "if googleChatOverride ext t
             then pushWarning path (googleChatOverrideMessage path) s else s"
  obtain out s2 where rs: "resolveSecretRefValue ext ref ?s1 = (out, s2)"
    by (cases "resolveSecretRefValue ext ref ?s1")
  show ?thesis
  proof (cases out)
    case (Inl e')
    with b Some rs have "s' = s2" by (simp add: target_cases)
    with step_failed[of ext ref ?s1 e' s2] rs Inl Some show ?thesis
      by (simp add: serviceAccountResolves_def resolves_def)
  next
    case (Inr v)
    with b Some rs have "assignProp t ''serviceAccount'' v s2 = (Inl e, s')"
      by (simp add: target_cases)
    then have "\<not> isObject t" by (simp add: assignProp_Inl)
    with Some show ?thesis by (simp add: serviceAccountResolves_def)
  qed
qed

lemma account_later: "resolveGoogleChatAccount ext k a s = (r, s') \<Longrightarrow> later s s'"
  by (cases "isRecord a") (auto simp: resolveGoogleChatAccount_def dest: target_later)

lemma account_ok:
  assumes "resolveGoogleChatAccount ext k a s = (Inr a', s')" and "later s' u"
  shows "accountResolved ext u (k, a) (k, a')" and "accountResolves ext u (k, a)"
  using assms target_ok[of ext a "''channels.googlechat.accounts.'' @ k" s a' s' u]
  by (cases "isRecord a";
      simp add: resolveGoogleChatAccount_def accountResolved_def accountResolves_def deepEqual_def)+

lemma account_failed:
  assumes "resolveGoogleChatAccount ext k a s = (Inl e, s')"
  shows "\<not> accountResolves ext s' (k, a)"
  using assms target_failed[of ext a "''channels.googlechat.accounts.'' @ k" s e s']
  by (cases "isRecord a") (simp_all add: resolveGoogleChatAccount_def accountResolves_def)

lemma accountEntries_record:
  "isRecord (optProp g ''accounts'') \<Longrightarrow>
   objectEntries (optProp g ''accounts'') = Inr (googleChatAccountEntries g)"
  by (cases "optProp g ''accounts''")
     (auto simp: isRecord_def googleChatAccountEntries_def objectEntries_def)

lemma accountEntries_other:
  "\<not> isRecord (optProp g ''accounts'') \<Longrightarrow> googleChatAccountEntries g = []"
  by (cases "optProp g ''accounts''")
     (auto simp: isRecord_def googleChatAccountEntries_def)

lemma resolveGoogleChatAccounts_loop:
  assumes "resolveGoogleChatAccounts ext g st = (r, st1)"
  shows "forEntries (resolveGoogleChatAccount ext) (googleChatAccountEntries g) st
           = (map_sum id (\<lambda>_. googleChatAccountEntries (case r of Inr g1 \<Rightarrow> g1)) r, st1)"
    and "\<And>g1. r = Inr g1 \<Longrightarrow> optProp g1 ''serviceAccount'' = optProp g ''serviceAccount''"
proof -
  have "forEntries (resolveGoogleChatAccount ext) (googleChatAccountEntries g) st
           = (map_sum id (\<lambda>_. googleChatAccountEntries (case r of Inr g1 \<Rightarrow> g1)) r, st1)
      \<and> (\<forall>g1. r = Inr g1 \<longrightarrow> optProp g1 ''serviceAccount'' = optProp g ''serviceAccount'')"
  proof (cases "isRecord (optProp g ''accounts'')")
    case False
    with assms show ?thesis
      by (auto simp: resolveGoogleChatAccounts_def Let_def accountEntries_other)
  next
    case True
    then obtain a kvs where acc: "optProp g ''accounts'' = JObj a False kvs"
      by (auto simp: isRecord_def split: jv.splits)
    then obtain ga garr gkvs where g: "g = JObj ga garr gkvs"
      by (cases g) (auto simp: optProp_def)
    note e = accountEntries_record[OF True]
    obtain out s2 where
      f: "forEntries (resolveGoogleChatAccount ext) (googleChatAccountEntries g) st = (out, s2)"
      by (cases "forEntries (resolveGoogleChatAccount ext) (googleChatAccountEntries g) st")
    show ?thesis
    proof (cases out)
      case (Inl err)
      with assms True e f show ?thesis by (auto simp: resolveGoogleChatAccounts_def Let_def)
    next
      case (Inr es)
      with assms True e f have r: "r = Inr (withProp g ''accounts''
          (withEntries (optProp g ''accounts'') es))" and s: "st1 = s2"
        by (auto simp: resolveGoogleChatAccounts_def Let_def)
      have "googleChatAccountEntries (withProp g ''accounts''
          (withEntries (optProp g ''accounts'') es)) = es"
        unfolding acc unfolding g
        by (simp add: googleChatAccountEntries_def optProp_withProp_same withEntries_def)
      moreover have "optProp (withProp g ''accounts''
          (withEntries (optProp g ''accounts'') es)) ''serviceAccount''
          = optProp g ''serviceAccount''"
        by (simp add: optProp_withProp_other)
      ultimately show ?thesis using r s f Inr by simp
    qed
  qed
  then show "forEntries (resolveGoogleChatAccount ext) (googleChatAccountEntries g) st
           = (map_sum id (\<lambda>_. googleChatAccountEntries (case r of Inr g1 \<Rightarrow> g1)) r, st1)"
    and "\<And>g1. r = Inr g1 \<Longrightarrow> optProp g1 ''serviceAccount'' = optProp g ''serviceAccount''"
    by simp_all
qed

lemma accounts_ok:
  assumes "resolveGoogleChatAccounts ext g st = (Inr g', st1)"
  shows "later st st1"
    and "later st1 t \<Longrightarrow> list_all (accountResolves ext t) (googleChatAccountEntries g)"
    and "later st1 t \<Longrightarrow>
           list_all2 (accountResolved ext t) (googleChatAccountEntries g) (googleChatAccountEntries g')"
    and "optProp g' ''serviceAccount'' = optProp g ''serviceAccount''"
proof -
  from resolveGoogleChatAccounts_loop[OF assms]
  have f: "forEntries (resolveGoogleChatAccount ext) (googleChatAccountEntries g) st
             = (Inr (googleChatAccountEntries g'), st1)"
    and sa: "optProp g' ''serviceAccount'' = optProp g ''serviceAccount''" by simp_all
  from sa show "optProp g' ''serviceAccount'' = optProp g ''serviceAccount''" .
  have *: "later st st1 \<and> (\<forall>t. later st1 t \<longrightarrow>
      list_all2 (\<lambda>kv kv'. fst kv' = fst kv
         \<and> (accountResolved ext t (fst kv, snd kv) (fst kv, snd kv')
            \<and> accountResolves ext t (fst kv, snd kv)))
        (googleChatAccountEntries g) (googleChatAccountEntries g'))"
    by (rule forEntries_final[OF _ f]) (auto dest: account_later account_ok)
  then show "later st st1" by simp
  assume t: "later st1 t"
  with * have l: "list_all2 (\<lambda>kv kv'. fst kv' = fst kv
         \<and> (accountResolved ext t (fst kv, snd kv) (fst kv, snd kv')
            \<and> accountResolves ext t (fst kv, snd kv)))
        (googleChatAccountEntries g) (googleChatAccountEntries g')" by simp
  then show "list_all (accountResolves ext t) (googleChatAccountEntries g)"
    by (intro list_all2_left[where S = "\<lambda>kv kv'. fst kv' = fst kv
         \<and> accountResolved ext t (fst kv, snd kv) (fst kv, snd kv')"
         and ys = "googleChatAccountEntries g'"]) (auto elim!: list_all2_mono)
  from l show "list_all2 (accountResolved ext t) (googleChatAccountEntries g)
                 (googleChatAccountEntries g')"
    by (rule list_all2_mono) (auto simp: accountResolved_def split: if_splits)
qed

lemma accounts_failed:
  assumes "resolveGoogleChatAccounts ext g st = (Inl e, st1)"
  shows "\<not> list_all (accountResolves ext st1) (googleChatAccountEntries g)"
proof -
  from resolveGoogleChatAccounts_loop(1)[OF assms]
  have "forEntries (resolveGoogleChatAccount ext) (googleChatAccountEntries g) st = (Inl e, st1)"
    by simp
  from forEntries_failed[OF _ this] obtain kv s where
    "kv \<in> set (googleChatAccountEntries g)"
    "resolveGoogleChatAccount ext (fst kv) (snd kv) s = (Inl e, st1)"
    using account_later by blast
  with account_failed[of ext "fst kv" "snd kv" s e st1] show ?thesis
    by (auto simp: list_all_iff)
qed

lemma serviceAccountResolved_cong:
  "optProp t2 ''serviceAccount'' = optProp t1 ''serviceAccount'' \<Longrightarrow>
   serviceAccountResolved ext s t t2 = serviceAccountResolved ext s t t1"
  by (simp add: serviceAccountResolved_def split: option.splits)

lemma googleChat_phase:
  assumes t: "truthy (optProp (optProp c ''channels'') ''googlechat'')"
  shows "resolveGoogleChat ext c st =
     (case resolveGoogleChatServiceAccount ext (optProp (optProp c ''channels'') ''googlechat'')
             ''channels.googlechat'' st of
        (Inl e, s1) \<Rightarrow> (Inl e, s1)
      | (Inr g1, s1) \<Rightarrow>
          (case resolveGoogleChatAccounts ext g1 s1 of
             (Inl e, s2) \<Rightarrow> (Inl e, s2)
           | (Inr g2, s2) \<Rightarrow>
               (Inr (withProp c ''channels''
                       (withProp (optProp c ''channels'') ''googlechat'' g2)), s2)))"
  using t
  by (auto simp: resolveGoogleChat_def Let_def andThen_def split: prod.splits sum.splits)

lemma googleChat_phase_result:
  assumes t: "truthy (optProp (optProp c ''channels'') ''googlechat'')"
  shows "optProp (optProp (withProp c ''channels''
           (withProp (optProp c ''channels'') ''googlechat'' g2)) ''channels'') ''googlechat'' = g2"
proof -
  from truthy_optProp_D[OF t] obtain a arr kvs where ch: "optProp c ''channels'' = JObj a arr kvs"
    by blast
  then obtain ca carr ckvs where c: "c = JObj ca carr ckvs"
    by (cases c) (auto simp: optProp_def)
  show ?thesis unfolding ch unfolding c by (simp add: optProp_withProp_same)
qed

lemma googleChat_phase_ok:
  assumes w: "resolveGoogleChat ext c st = (Inr r, st')"
  shows "later st st'"
    and "later st' t \<Longrightarrow> googleChatResolves ext t c"
    and "later st' t \<Longrightarrow> truthy (optProp (optProp c ''channels'') ''googlechat'') \<Longrightarrow>
           googleChatResolved ext t (optProp (optProp c ''channels'') ''googlechat'')
             (optProp (optProp r ''channels'') ''googlechat'')"
proof -
  let ?g = "optProp (optProp c ''channels'') ''googlechat''"
  have "later st st' \<and> (later st' t \<longrightarrow> googleChatResolves ext t c
        \<and> (truthy ?g \<longrightarrow> googleChatResolved ext t ?g (optProp (optProp r ''channels'') ''googlechat'')))"
  proof (cases "truthy ?g")
    case False
    with w show ?thesis by (simp add: resolveGoogleChat_def Let_def googleChatResolves_def)
  next
    case True
    obtain o1 s1 where b1: "resolveGoogleChatServiceAccount ext ?g ''channels.googlechat'' st = (o1, s1)"
      by (cases "resolveGoogleChatServiceAccount ext ?g ''channels.googlechat'' st")
    with w True obtain g1 where o1: "o1 = Inr g1"
      by (cases o1) (simp_all add: googleChat_phase)
    obtain o2 s2 where b2: "resolveGoogleChatAccounts ext g1 s1 = (o2, s2)"
      by (cases "resolveGoogleChatAccounts ext g1 s1")
    with w True b1 o1 obtain g2 where o2: "o2 = Inr g2"
      by (cases o2) (simp_all add: googleChat_phase)
    from w True b1 o1 b2 o2 have r: "r = withProp c ''channels''
        (withProp (optProp c ''channels'') ''googlechat'' g2)" and s: "st' = s2"
      by (simp_all add: googleChat_phase)
    from b1 o1 have b1': "resolveGoogleChatServiceAccount ext ?g ''channels.googlechat'' st = (Inr g1, s1)"
      by simp
    from b2 o2 have b2': "resolveGoogleChatAccounts ext g1 s1 = (Inr g2, s2)" by simp
    note a = accounts_ok[OF b2']
    from target_later[OF b1'] a(1) s have l: "later st st'" by (blast intro: later_trans)
    from googleChat_target_accounts[OF b1']
    have en: "googleChatAccountEntries g1 = googleChatAccountEntries ?g"
      by (simp add: googleChatAccountEntries_def)
    have g': "optProp (optProp r ''channels'') ''googlechat'' = g2"
      unfolding r by (rule googleChat_phase_result[OF True])
    have "googleChatResolves ext t c \<and> googleChatResolved ext t ?g g2" if t: "later st' t"
    proof -
      from t s have t2: "later s2 t" by simp
      with a(1) have t1: "later s1 t" by (blast intro: later_trans)
      note tg = target_ok[OF b1' t1]
      from tg(1) serviceAccountResolved_cong[OF a(4), of ext t ?g]
      have "serviceAccountResolved ext t ?g g2" by simp
      with a(2)[OF t2] a(3)[OF t2] tg(2) en True show ?thesis
        by (simp add: googleChatResolves_def googleChatResolved_def Let_def)
    qed
    with l g' show ?thesis by simp
  qed
  then show "later st st'" and "later st' t \<Longrightarrow> googleChatResolves ext t c"
    and "later st' t \<Longrightarrow> truthy ?g \<Longrightarrow>
           googleChatResolved ext t ?g (optProp (optProp r ''channels'') ''googlechat'')"
    by simp_all
qed

lemma googleChat_phase_failed:
  assumes w: "resolveGoogleChat ext c st = (Inl e, st')"
  shows "\<not> googleChatResolves ext st' c"
proof -
  let ?g = "optProp (optProp c ''channels'') ''googlechat''"
  from w have True: "truthy ?g" by (auto simp: resolveGoogleChat_def Let_def split: if_splits)
  obtain o1 s1 where b1: "resolveGoogleChatServiceAccount ext ?g ''channels.googlechat'' st = (o1, s1)"
    by (cases "resolveGoogleChatServiceAccount ext ?g ''channels.googlechat'' st")
  show ?thesis
  proof (cases o1)
    case (Inl e1)
    with w True b1 have "resolveGoogleChatServiceAccount ext ?g ''channels.googlechat'' st = (Inl e1, st')"
      by (simp add: googleChat_phase)
    from target_failed[OF this] True show ?thesis
      by (simp add: googleChatResolves_def Let_def)
  next
    case (Inr g1)
    obtain o2 s2 where b2: "resolveGoogleChatAccounts ext g1 s1 = (o2, s2)"
      by (cases "resolveGoogleChatAccounts ext g1 s1")
    with w True b1 Inr obtain e2 where o2: "o2 = Inl e2" and s: "st' = s2"
      by (cases o2) (simp_all add: googleChat_phase)
    from b1 Inr have "resolveGoogleChatServiceAccount ext ?g ''channels.googlechat'' st = (Inr g1, s1)"
      by simp
    from googleChat_target_accounts[OF this]
    have en: "googleChatAccountEntries g1 = googleChatAccountEntries ?g"
      by (simp add: googleChatAccountEntries_def)
    from b2 o2 s have "resolveGoogleChatAccounts ext g1 s1 = (Inl e2, st')" by simp
    from accounts_failed[OF this] en True show ?thesis
      by (simp add: googleChatResolves_def Let_def)
  qed
qed

section \<open>Inputs that are deep-equal\<close>

lemma erase_erase [simp]: "erase (erase v) = erase v"
  by (simp add: erase_def jv.map_comp comp_def)

lemma deepEqual_erase_right [simp]: "deepEqual v (erase w) = deepEqual v w"
  by (simp add: deepEqual_def)

lemma isObject_erase [simp]: "isObject (erase v) = isObject v"
  by (cases v) (simp_all add: isObject_def)

lemma chosenRef_erase [simp]: "chosenRef ext (erase t) = chosenRef ext t"
  by (simp add: chosenRef_def erase_optProp[symmetric] split: option.splits)

lemma serviceAccountResolves_erase [simp]:
  "serviceAccountResolves ext s (erase t) = serviceAccountResolves ext s t"
  by (simp add: serviceAccountResolves_def split: option.splits)

lemma serviceAccountResolved_erase [simp]:
  "serviceAccountResolved ext s (erase t) t' = serviceAccountResolved ext s t t'"
  by (simp add: serviceAccountResolved_def erase_optProp[symmetric] split: option.splits)

lemma accountResolves_erase [simp]:
  "accountResolves ext s (k, erase a) = accountResolves ext s (k, a)"
  by (simp add: accountResolves_def)

lemma accountResolved_erase [simp]:
  "accountResolved ext s (k, erase a) e' = accountResolved ext s (k, a) e'"
  by (simp add: accountResolved_def)

lemma googleChatResolved_erase [simp]:
  "googleChatResolved ext s (erase g) g' = googleChatResolved ext s g g'"
  by (simp add: googleChatResolved_def googleChatAccountEntries_erase list_all2_map1)

lemma googleChatResolves_erase [simp]:
  "googleChatResolves ext s (erase c) = googleChatResolves ext s c"
  by (simp add: googleChatResolves_def Let_def erase_optProp[symmetric]
      googleChatAccountEntries_erase list_all_iff)

lemma providerKeyResolves_erase [simp]:
  "providerKeyResolves ext s (k, erase p) = providerKeyResolves ext s (k, p)"
  by (simp add: providerKeyResolves_def erase_optProp[symmetric] split: option.splits)

lemma providersResolve_erase [simp]:
  "list_all (providerKeyResolves ext s) (providerEntries (erase c))
   = list_all (providerKeyResolves ext s) (providerEntries c)"
  by (simp add: providerEntries_erase list_all_iff)

lemma providerResolved_erase_left:
  assumes "fst c = fst p" "erase (snd c) = erase (snd p)" "providerResolved ext st c e"
  shows "providerResolved ext st p e"
proof -
  have o: "erase (optProp (snd c) ''apiKey'') = erase (optProp (snd p) ''apiKey'')"
    using assms(2) by (simp add: erase_optProp)
  then have "asSecretRef ext (optProp (snd c) ''apiKey'') = asSecretRef ext (optProp (snd p) ''apiKey'')"
    by (simp add: asSecretRef_def)
  moreover have "erase (withProp (snd c) ''apiKey'' x) = erase (withProp (snd p) ''apiKey'' x)" for x :: "nat jv"
    using assms(2) by (simp add: erase_withProp)
  ultimately show ?thesis using assms
    by (auto simp: providerResolved_def deepEqual_def split: option.splits)
qed

lemma providerResolved_transfer:
  assumes e: "erase c = erase config"
    and l: "list_all2 (providerResolved ext s) (providerEntries c) es"
  shows "list_all2 (providerResolved ext s) (providerEntries config) es"
proof -
  from e have "providerEntries (erase c) = providerEntries (erase config)" by simp
  then have "map (\<lambda>kv. (fst kv, erase (snd kv))) (providerEntries config)
           = map (\<lambda>kv. (fst kv, erase (snd kv))) (providerEntries c)"
    by (simp add: providerEntries_erase)
  from map_erase_eq_all2[OF this]
  have "list_all2 (\<lambda>x y. fst y = fst x \<and> erase (snd y) = erase (snd x))
          (providerEntries config) (providerEntries c)" .
  from list_all2_trans[of _ "providerResolved ext s" "providerResolved ext s", OF _ this l]
  show ?thesis by (auto intro: providerResolved_erase_left)
qed

section \<open>The configuration walk as a whole\<close>

lemma configWalk_phases:
  "resolveConfigSecretRefs ext config st =
     andThen (resolveProviders ext (fst (structuredClone config (nextAddr st)))
                (st\<lparr>nextAddr := snd (structuredClone config (nextAddr st))\<rparr>))
       (resolveGoogleChat ext)"
  by (simp add: resolveConfigSecretRefs_def split: prod.splits)

lemma configWalk_succeeds_iff:
  "succeeded (resolveConfigSecretRefs ext config st) \<longleftrightarrow>
     list_all (providerKeyResolves ext (snd (resolveConfigSecretRefs ext config st)))
       (providerEntries config)
     \<and> googleChatResolves ext (snd (resolveConfigSecretRefs ext config st)) config"
proof -
  let ?c = "fst (structuredClone config (nextAddr st))"
  let ?st0 = "st\<lparr>nextAddr := snd (structuredClone config (nextAddr st))\<rparr>"
  have e: "erase ?c = erase config" by (rule clone_erase(1))
  have pe: "list_all (providerKeyResolves ext s) (providerEntries ?c)
          = list_all (providerKeyResolves ext s) (providerEntries config)" for s
    using providersResolve_erase[of ext s ?c] providersResolve_erase[of ext s config] e by simp
  have ge: "googleChatResolves ext s ?c = googleChatResolves ext s config" for s
    using googleChatResolves_erase[of ext s ?c] googleChatResolves_erase[of ext s config] e by simp
  obtain o1 s1 where p: "resolveProviders ext ?c ?st0 = (o1, s1)"
    by (cases "resolveProviders ext ?c ?st0")
  show ?thesis
  proof (cases o1)
    case (Inl e1)
    with p have w: "resolveConfigSecretRefs ext config st = (Inl e1, s1)"
      by (simp add: configWalk_phases)
    from p Inl resolveProviders_failed[of ext ?c ?st0 e1 s1] pe[of s1] w show ?thesis
      by (simp add: succeeded_def)
  next
    case (Inr r1)
    with p have p': "resolveProviders ext ?c ?st0 = (Inr r1, s1)" by simp
    then have w: "resolveConfigSecretRefs ext config st = resolveGoogleChat ext r1 s1"
      by (simp add: configWalk_phases)
    from resolveProviders_frame(1)[OF p']
    have gr: "googleChatResolves ext s r1 = googleChatResolves ext s ?c" for s
      by (simp add: googleChatResolves_def)
    obtain o2 s2 where g: "resolveGoogleChat ext r1 s1 = (o2, s2)"
      by (cases "resolveGoogleChat ext r1 s1")
    show ?thesis
    proof (cases o2)
      case (Inl e2)
      with g googleChat_phase_failed[of ext r1 s1 e2 s2] gr[of s2] ge[of s2] w show ?thesis
        by (simp add: succeeded_def)
    next
      case (Inr r)
      with g have g': "resolveGoogleChat ext r1 s1 = (Inr r, s2)" by simp
      from googleChat_phase_ok(1)[OF g'] resolveProviders_ok(2)[OF p', of s2] pe[of s2]
      have "list_all (providerKeyResolves ext s2) (providerEntries config)" by simp
      moreover from googleChat_phase_ok(2)[OF g' later_refl] gr[of s2] ge[of s2]
      have "googleChatResolves ext s2 config" by simp
      ultimately show ?thesis using w g' by (simp add: succeeded_def)
    qed
  qed
qed

lemma providerEntries_models:
  "optProp r ''models'' = optProp r1 ''models'' \<Longrightarrow> providerEntries r = providerEntries r1"
  by (simp add: providerEntries_def)

lemma configWalk_resolved:
  assumes w: "resolveConfigSecretRefs ext config st = (Inr resolved, sf)"
  shows "list_all2 (providerResolved ext sf) (providerEntries config) (providerEntries resolved)"
    and "truthy (optProp (optProp config ''channels'') ''googlechat'') \<Longrightarrow>
         googleChatResolved ext sf (optProp (optProp config ''channels'') ''googlechat'')
           (optProp (optProp resolved ''channels'') ''googlechat'')"
proof -
  let ?c = "fst (structuredClone config (nextAddr st))"
  let ?st0 = "st\<lparr>nextAddr := snd (structuredClone config (nextAddr st))\<rparr>"
  have e: "erase ?c = erase config" by (rule clone_erase(1))
  from w obtain r1 s1 where p: "resolveProviders ext ?c ?st0 = (Inr r1, s1)"
    and g: "resolveGoogleChat ext r1 s1 = (Inr resolved, sf)"
    by (auto simp: configWalk_phases andThen_eq_Inr)
  note l = googleChat_phase_ok(1)[OF g]
  from resolveProviders_ok(3)[OF p l] providerEntries_models[OF resolveGoogleChat_models[OF g]]
  have "list_all2 (providerResolved ext sf) (providerEntries ?c) (providerEntries resolved)"
    by simp
  from providerResolved_transfer[OF e this]
  show "list_all2 (providerResolved ext sf) (providerEntries config) (providerEntries resolved)" .
  assume t: "truthy (optProp (optProp config ''channels'') ''googlechat'')"
  from resolveProviders_frame(1)[OF p]
  have ch: "optProp (optProp r1 ''channels'') ''googlechat'' = optProp (optProp ?c ''channels'') ''googlechat''"
    by simp
  have eg: "erase (optProp (optProp ?c ''channels'') ''googlechat'')
          = erase (optProp (optProp config ''channels'') ''googlechat'')"
    using e by (simp add: erase_optProp)
  with t have "truthy (optProp (optProp ?c ''channels'') ''googlechat'')"
    using truthy_erase[of "optProp (optProp ?c ''channels'') ''googlechat''"]
      truthy_erase[of "optProp (optProp config ''channels'') ''googlechat''"] by simp
  with googleChat_phase_ok(3)[OF g later_refl] ch
  have "googleChatResolved ext sf (optProp (optProp ?c ''channels'') ''googlechat'')
           (optProp (optProp resolved ''channels'') ''googlechat'')" by simp
  with eg show "googleChatResolved ext sf (optProp (optProp config ''channels'') ''googlechat'')
           (optProp (optProp resolved ''channels'') ''googlechat'')"
    using googleChatResolved_erase[of ext sf "optProp (optProp ?c ''channels'') ''googlechat''"]
      googleChatResolved_erase[of ext sf "optProp (optProp config ''channels'') ''googlechat''"]
    by simp
qed

section \<open>The claim about the Google Chat service account\<close>



lemma chatConfig_result:
  "fst (resolveConfigSecretRefs exampleExternals chatConfig (newPass chatConfig exampleEnv 40))
     = Inr chatConfigResolved"
  by code_simp

lemma chatConfig_walk:
  "resolveConfigSecretRefs exampleExternals chatConfig (newPass chatConfig exampleEnv 40)
   = (Inr chatConfigResolved,
      snd (resolveConfigSecretRefs exampleExternals chatConfig (newPass chatConfig exampleEnv 40)))"
  using chatConfig_result by (simp add: prod_eq_iff)

lemma chatConfig_warnings:
  "configWalkWarnings exampleExternals chatConfig =
     [(SECRETS_REF_OVERRIDES_PLAINTEXT, ''channels.googlechat.accounts.c'',
       ''channels.googlechat.accounts.c: serviceAccountRef is set; runtime will ignore plaintext serviceAccount.''),
      (SECRETS_REF_OVERRIDES_PLAINTEXT, ''channels.googlechat.accounts.e'',
       ''channels.googlechat.accounts.e: serviceAccountRef is set; runtime will ignore plaintext serviceAccount.'')]"
  by code_simp

lemma chatConfig_facts:
  "unshared chatConfig" "truthy (optProp (optProp chatConfig ''channels'') ''googlechat'')"
  by code_simp+


section \<open>The claim about the provider keys\<close>

lemma provider_written:
  "asSecretRef ext (optProp (JObj pa parr pkvs) ''apiKey'') = Some ref \<Longrightarrow>
   resolveSecretRefValue ext ref st = (Inr v, sa) \<Longrightarrow> isNonEmptyString v \<Longrightarrow>
   resolveProviderApiKey ext providerId (JObj pa parr pkvs) st =
     (Inr (JObj pa parr (AList.update ''apiKey'' v pkvs)), sa\<lparr>assigned := assigned sa @ [pa]\<rparr>)"
  by (simp add: provider_cases assignProp_def)

lemma provider_unresolved:
  "provider \<noteq> JNull \<Longrightarrow> provider \<noteq> JUndefined \<Longrightarrow>
   asSecretRef ext (optProp provider ''apiKey'') = Some ref \<Longrightarrow>
   resolveSecretRefValue ext ref st = (Inl e, sa) \<Longrightarrow>
   resolveProviderApiKey ext providerId provider st = (Inl e, sa)"
  by (simp add: provider_cases)

lemma configWalk_providers_failure:
  "resolveProviders ext (fst (structuredClone config (nextAddr st)))
     (st\<lparr>nextAddr := snd (structuredClone config (nextAddr st))\<rparr>) = (Inl e, s) \<Longrightarrow>
   resolveConfigSecretRefs ext config st = (Inl e, s)"
  by (simp add: configWalk_phases)


lemma pair_fst: "fst p = x \<Longrightarrow> p = (x, snd p)"
  by (simp add: prod_eq_iff)

lemma vaultProvider_eval:
  "asSecretRef exampleExternals
     (optProp (JObj 8 False
        [(''apiKey'', JObj 9 False [(''source'', JStr ''file''), (''id'', JStr ''/key'')]),
         (''baseUrl'', JStr ''https://vault.example'')] :: nat jv) ''apiKey'')
     = Some \<lparr>ref_source = ''file'', ref_id = ''/key''\<rparr>"
  "resolveSecretRefValue exampleExternals \<lparr>ref_source = ''file'', ref_id = ''/key''\<rparr>
       (newPass sopsConfig exampleEnv 30)
   = (Inr (JStr ''k3y''),
      snd (resolveSecretRefValue exampleExternals \<lparr>ref_source = ''file'', ref_id = ''/key''\<rparr>
             (newPass sopsConfig exampleEnv 30)))"
  "isNonEmptyString (JStr ''k3y'' :: nat jv)"
proof -
  show "asSecretRef exampleExternals
     (optProp (JObj 8 False
        [(''apiKey'', JObj 9 False [(''source'', JStr ''file''), (''id'', JStr ''/key'')]),
         (''baseUrl'', JStr ''https://vault.example'')] :: nat jv) ''apiKey'')
     = Some \<lparr>ref_source = ''file'', ref_id = ''/key''\<rparr>"
    by code_simp
  have "fst (resolveSecretRefValue exampleExternals \<lparr>ref_source = ''file'', ref_id = ''/key''\<rparr>
       (newPass sopsConfig exampleEnv 30)) = Inr (JStr ''k3y'')"
    by code_simp
  then show "resolveSecretRefValue exampleExternals \<lparr>ref_source = ''file'', ref_id = ''/key''\<rparr>
       (newPass sopsConfig exampleEnv 30)
   = (Inr (JStr ''k3y''),
      snd (resolveSecretRefValue exampleExternals \<lparr>ref_source = ''file'', ref_id = ''/key''\<rparr>
             (newPass sopsConfig exampleEnv 30)))"
    by (rule pair_fst)
  show "isNonEmptyString (JStr ''k3y'' :: nat jv)" by code_simp
qed

lemma ghostProvider_eval:
  "asSecretRef exampleExternals
     (optProp (JObj 5 False
        [(''apiKey'', JObj 6 False [(''source'', JStr ''env''), (''id'', JStr ''UNSET'')])] :: nat jv) ''apiKey'')
     = Some \<lparr>ref_source = ''env'', ref_id = ''UNSET''\<rparr>"
  "resolveSecretRefValue exampleExternals \<lparr>ref_source = ''env'', ref_id = ''UNSET''\<rparr>
       (newPass missingKeyConfig exampleEnv 30)
   = (Inl MissingSecret, newPass missingKeyConfig exampleEnv 30)"
  "asSecretRef exampleExternals
     (optProp (JObj 10 False [(''apiKey'', JStr ''sk-plain'')] :: nat jv) ''apiKey'') = None"
proof -
  show "asSecretRef exampleExternals
     (optProp (JObj 5 False
        [(''apiKey'', JObj 6 False [(''source'', JStr ''env''), (''id'', JStr ''UNSET'')])] :: nat jv) ''apiKey'')
     = Some \<lparr>ref_source = ''env'', ref_id = ''UNSET''\<rparr>"
    by code_simp
  show "resolveSecretRefValue exampleExternals \<lparr>ref_source = ''env'', ref_id = ''UNSET''\<rparr>
       (newPass missingKeyConfig exampleEnv 30)
   = (Inl MissingSecret, newPass missingKeyConfig exampleEnv 30)"
    by (simp add: resolve_env newPass_sel exampleEnv_def trim_def isWhiteSpace_def)
  show "asSecretRef exampleExternals
     (optProp (JObj 10 False [(''apiKey'', JStr ''sk-plain'')] :: nat jv) ''apiKey'') = None"
    by code_simp
qed

lemma vaultKeyConfig_result:
  "fst (resolveConfigSecretRefs exampleExternals vaultKeyConfig (newPass vaultKeyConfig exampleEnv 40))
     = Inr vaultKeyConfigResolved"
  by code_simp

lemma vaultKeyConfig_walk:
  "resolveConfigSecretRefs exampleExternals vaultKeyConfig (newPass vaultKeyConfig exampleEnv 40)
   = (Inr vaultKeyConfigResolved,
      snd (resolveConfigSecretRefs exampleExternals vaultKeyConfig (newPass vaultKeyConfig exampleEnv 40)))"
  using vaultKeyConfig_result by (rule pair_fst)

lemma example_unshared: "unshared vaultKeyConfig" "unshared missingKeyConfig"
  by code_simp+

lemma missingKeyConfig_result:
  "fst (resolveConfigSecretRefs exampleExternals missingKeyConfig
          (newPass missingKeyConfig exampleEnv 40)) = Inl MissingSecret"
  "googleChatResolves exampleExternals
     (snd (resolveConfigSecretRefs exampleExternals missingKeyConfig
             (newPass missingKeyConfig exampleEnv 40))) missingKeyConfig"
  by code_simp+


section \<open>The walk over a credential store\<close>

lemma credential_body_later:
  assumes "(case resolveSecretRefValue ext ref s1 of
              (Inl e, s2) \<Rightarrow> (Inl e, s2)
            | (Inr v, s2) \<Rightarrow>
                if \<not> isNonEmptyString v then (Inl err, s2)
                else assignProp p field v s2) = (r, s')"
  shows "later s1 s'"
proof -
  obtain out s2 where rs: "resolveSecretRefValue ext ref s1 = (out, s2)"
    by (cases "resolveSecretRefValue ext ref s1")
  note l = resolve_later[OF rs]
  show ?thesis
  proof (cases out)
    case (Inl e)
    with assms rs l show ?thesis by simp
  next
    case (Inr v)
    show ?thesis
    proof (cases "isNonEmptyString v")
      case False
      with assms rs Inr l show ?thesis by simp
    next
      case True
      with assms rs Inr have "assignProp p field v s2 = (r, s')" by simp
      from assignProp_later[OF this] l show ?thesis by (blast intro: later_trans)
    qed
  qed
qed

lemma credential_body_ok:
  assumes b: "(case resolveSecretRefValue ext ref s1 of
              (Inl e, s2) \<Rightarrow> (Inl e, s2)
            | (Inr v, s2) \<Rightarrow>
                if \<not> isNonEmptyString v then (Inl err, s2)
                else assignProp p field v s2) = (Inr p', s')"
    and t: "later s' t"
  shows "isNonEmptyString (optProp p' field)"
    and "fst (resolveSecretRefValue ext ref t) = Inr (optProp p' field)"
    and "p' = withProp p field (optProp p' field)"
    and "resolvesToString ext t ref"
proof -
  obtain out s2 where rs: "resolveSecretRefValue ext ref s1 = (out, s2)"
    by (cases "resolveSecretRefValue ext ref s1")
  with b obtain v where v: "out = Inr v" "isNonEmptyString v"
    and a: "assignProp p field v s2 = (Inr p', s')"
    by (cases out) (auto split: if_splits)
  from rs v have r: "resolveSecretRefValue ext ref s1 = (Inr v, s2)" by simp
  note st = step_ok[OF r a later_refl]
  from st(4) v(2) show "isNonEmptyString (optProp p' field)" by simp
  from st(2)[OF t] st(4) show "fst (resolveSecretRefValue ext ref t) = Inr (optProp p' field)"
    by simp
  from st(3,4) show "p' = withProp p field (optProp p' field)" by simp
  from st(2)[OF t] v(2) show "resolvesToString ext t ref" by (simp add: resolvesToString_def)
qed

lemma credential_body_failed:
  assumes b: "(case resolveSecretRefValue ext ref s1 of
              (Inl e, s2) \<Rightarrow> (Inl e, s2)
            | (Inr v, s2) \<Rightarrow>
                if \<not> isNonEmptyString v then (Inl err, s2)
                else assignProp p field v s2) = (Inl e', s')"
    and o: "isObject p"
  shows "\<not> resolvesToString ext s' ref"
proof -
  obtain out s2 where rs: "resolveSecretRefValue ext ref s1 = (out, s2)"
    by (cases "resolveSecretRefValue ext ref s1")
  show ?thesis
  proof (cases out)
    case (Inl e)
    with b rs have "s' = s2" by simp
    with step_failed[of ext ref s1 e s2] rs Inl show ?thesis
      by (simp add: resolvesToString_def)
  next
    case (Inr v)
    show ?thesis
    proof (cases "isNonEmptyString v")
      case False
      with b rs Inr have "s' = s2" by simp
      with step_value[of ext ref s1 v s2] rs Inr False show ?thesis
        by (simp add: resolvesToString_def)
    next
      case True
      with b rs Inr have "assignProp p field v s2 = (Inl e', s')" by simp
      with o show ?thesis by (simp add: assignProp_Inl)
    qed
  qed
qed

lemma apiKeyProfile_cases:
  "resolveApiKeyProfile ext agentDir k p s =
     (case asSecretRef ext (optProp p ''keyRef'') of
        None \<Rightarrow> (Inr p, s)
      | Some ref \<Rightarrow>
          (case resolveSecretRefValue ext ref
                  (if isNonEmptyString (optProp p ''key'')
                   then pushWarning (agentDir @ ''.auth-profiles.'' @ k @ ''.key'')
                          (''auth-profiles '' @ k
                             @ '': keyRef is set; runtime will ignore plaintext key.'') s
                   else s) of
             (Inl e, s2) \<Rightarrow> (Inl e, s2)
           | (Inr v, s2) \<Rightarrow>
               if \<not> isNonEmptyString v then (Inl EmptyResolvedCredential, s2)
               else assignProp p ''key'' v s2))"
  by (auto simp: resolveApiKeyProfile_def Let_def andThen_def
      split: option.splits prod.splits sum.splits)

lemma tokenProfile_cases:
  "resolveTokenProfile ext agentDir k p s =
     (case asSecretRef ext (optProp p ''tokenRef'') of
        None \<Rightarrow> (Inr p, s)
      | Some ref \<Rightarrow>
          (case resolveSecretRefValue ext ref
                  (if isNonEmptyString (optProp p ''token'')
                   then pushWarning (agentDir @ ''.auth-profiles.'' @ k @ ''.token'')
                          (''auth-profiles '' @ k
                             @ '': tokenRef is set; runtime will ignore plaintext token.'') s
                   else s) of
             (Inl e, s2) \<Rightarrow> (Inl e, s2)
           | (Inr v, s2) \<Rightarrow>
               if \<not> isNonEmptyString v then (Inl EmptyResolvedCredential, s2)
               else assignProp p ''token'' v s2))"
  by (auto simp: resolveTokenProfile_def Let_def andThen_def
      split: option.splits prod.splits sum.splits)

lemma warned_later: "later s (if b then pushWarning p m s else s)"
  by (simp add: later_pushWarning)

lemma credential_profile:
  assumes c: "body =
     (case asSecretRef ext (optProp p refField) of
        None \<Rightarrow> (Inr p, s)
      | Some ref \<Rightarrow>
          (case resolveSecretRefValue ext ref (if w then pushWarning path msg s else s) of
             (Inl e, s2) \<Rightarrow> (Inl e, s2)
           | (Inr v, s2) \<Rightarrow>
               if \<not> isNonEmptyString v then (Inl EmptyResolvedCredential, s2)
               else assignProp p field v s2))"
  shows "later s (snd body)"
    and "\<And>p' s' t. body = (Inr p', s') \<Longrightarrow> later s' t \<Longrightarrow>
           fieldResolved ext t refField field p p' \<and> credentialResolves ext t refField p"
    and "\<And>e s'. body = (Inl e, s') \<Longrightarrow> isObject p \<Longrightarrow> \<not> credentialResolves ext s' refField p"
proof -
  show "later s (snd body)"
  proof (cases "asSecretRef ext (optProp p refField)")
    case None
    with c show ?thesis by simp
  next
    case (Some ref)
    with c have "(case resolveSecretRefValue ext ref (if w then pushWarning path msg s else s) of
             (Inl e, s2) \<Rightarrow> (Inl e, s2)
           | (Inr v, s2) \<Rightarrow>
               if \<not> isNonEmptyString v then (Inl EmptyResolvedCredential, s2)
               else assignProp p field v s2) = (fst body, snd body)" by simp
    from credential_body_later[OF this] warned_later[of s w path msg] show ?thesis
      by (blast intro: later_trans)
  qed
next
  fix p' s' t
  assume b: "body = (Inr p', s')" and t: "later s' t"
  show "fieldResolved ext t refField field p p' \<and> credentialResolves ext t refField p"
  proof (cases "asSecretRef ext (optProp p refField)")
    case None
    with c b show ?thesis
      by (simp add: fieldResolved_def credentialResolves_def deepEqual_def)
  next
    case (Some ref)
    with c b have "(case resolveSecretRefValue ext ref (if w then pushWarning path msg s else s) of
             (Inl e, s2) \<Rightarrow> (Inl e, s2)
           | (Inr v, s2) \<Rightarrow>
               if \<not> isNonEmptyString v then (Inl EmptyResolvedCredential, s2)
               else assignProp p field v s2) = (Inr p', s')" by simp
    note k = credential_body_ok[OF this t]
    have "deepEqual p' (withProp p field (optProp p' field))"
      using k(3) by (simp add: deepEqual_def)
    with k(1,2,4) Some show ?thesis
      by (simp add: fieldResolved_def credentialResolves_def)
  qed
next
  fix e s'
  assume b: "body = (Inl e, s')" and o: "isObject p"
  show "\<not> credentialResolves ext s' refField p"
  proof (cases "asSecretRef ext (optProp p refField)")
    case None
    with c b show ?thesis by simp
  next
    case (Some ref)
    with c b have "(case resolveSecretRefValue ext ref (if w then pushWarning path msg s else s) of
             (Inl e, s2) \<Rightarrow> (Inl e, s2)
           | (Inr v, s2) \<Rightarrow>
               if \<not> isNonEmptyString v then (Inl EmptyResolvedCredential, s2)
               else assignProp p field v s2) = (Inl e, s')" by simp
    from credential_body_failed[OF this o] Some show ?thesis
      by (simp add: credentialResolves_def)
  qed
qed

lemma optProp_JStr_object: "optProp v k = JStr s \<Longrightarrow> isObject v"
  by (cases v) (simp_all add: optProp_def isObject_def)

lemma profile_shape:
  "resolveProfile ext agentDir k p s =
     (if p = JNull \<or> p = JUndefined then (Inl TypeError, s)
      else if optProp p ''type'' = JStr ''api_key'' then resolveApiKeyProfile ext agentDir k p s
      else if optProp p ''type'' = JStr ''token'' then resolveTokenProfile ext agentDir k p s
      else (Inr p, s))"
  by (cases p) (simp_all add: resolveProfile_def getProp_def)

lemma profile_later:
  assumes "resolveProfile ext agentDir k p s = (r, s')"
  shows "later s s'"
proof -
  have "later s (snd (resolveProfile ext agentDir k p s))"
    using credential_profile(1)[OF apiKeyProfile_cases, of s ext agentDir k p]
      credential_profile(1)[OF tokenProfile_cases, of s ext agentDir k p]
    by (simp add: profile_shape)
  with assms show ?thesis by simp
qed

lemma profile_ok:
  assumes b: "resolveProfile ext agentDir k p s = (Inr p', s')" and t: "later s' t"
  shows "profileResolved ext t (k, p) (k, p')" and "profileResolves ext t (k, p)"
proof -
  from b have rd: "p \<noteq> JNull" "p \<noteq> JUndefined" by (auto simp: profile_shape split: if_splits)
  have "profileResolved ext t (k, p) (k, p') \<and> profileResolves ext t (k, p)"
  proof (cases "optProp p ''type'' = JStr ''api_key''")
    case True
    with b rd have "resolveApiKeyProfile ext agentDir k p s = (Inr p', s')"
      by (simp add: profile_shape)
    from credential_profile(2)[OF apiKeyProfile_cases this t] True rd show ?thesis
      by (simp add: profileResolved_def profileResolves_def)
  next
    case False
    show ?thesis
    proof (cases "optProp p ''type'' = JStr ''token''")
      case True
      with b rd False have "resolveTokenProfile ext agentDir k p s = (Inr p', s')"
        by (simp add: profile_shape)
      from credential_profile(2)[OF tokenProfile_cases this t] True False rd show ?thesis
        by (simp add: profileResolved_def profileResolves_def)
    next
      case other: False
      with b rd False have "p' = p" by (simp add: profile_shape)
      with False other rd show ?thesis
        by (simp add: profileResolved_def profileResolves_def deepEqual_def)
    qed
  qed
  then show "profileResolved ext t (k, p) (k, p')" and "profileResolves ext t (k, p)"
    by simp_all
qed

lemma profile_failed:
  assumes b: "resolveProfile ext agentDir k p s = (Inl e, s')"
  shows "\<not> profileResolves ext s' (k, p)"
proof (cases "p = JNull \<or> p = JUndefined")
  case True
  then show ?thesis by (auto simp: profileResolves_def)
next
  case rd: False
  show ?thesis
  proof (cases "optProp p ''type'' = JStr ''api_key''")
    case True
    with b rd have "resolveApiKeyProfile ext agentDir k p s = (Inl e, s')"
      by (simp add: profile_shape)
    from credential_profile(3)[OF apiKeyProfile_cases this optProp_JStr_object[OF True]] True
    show ?thesis by (simp add: profileResolves_def)
  next
    case False
    show ?thesis
    proof (cases "optProp p ''type'' = JStr ''token''")
      case True
      with b rd False have "resolveTokenProfile ext agentDir k p s = (Inl e, s')"
        by (simp add: profile_shape)
      from credential_profile(3)[OF tokenProfile_cases this optProp_JStr_object[OF True]]
        True False
      show ?thesis by (simp add: profileResolves_def)
    next
      case other: False
      with b rd False show ?thesis by (simp add: profile_shape)
    qed
  qed
qed

lemma storeReadable_erase [simp]: "storeReadable (erase v) = storeReadable v"
  by (simp add: storeReadable_def erase_optProp[symmetric])

lemma profileEntries_erase:
  "profileEntries (erase v) = map (\<lambda>kv. (fst kv, erase (snd kv))) (profileEntries v)"
  by (cases "objectEntries (optProp v ''profiles'')")
     (simp_all add: profileEntries_def erase_optProp[symmetric] objectEntries_erase)

lemma credentialResolves_erase [simp]:
  "credentialResolves ext s refField (erase p) = credentialResolves ext s refField p"
  by (simp add: credentialResolves_def erase_optProp[symmetric] split: option.splits)

lemma profileResolves_erase [simp]:
  "profileResolves ext s (k, erase p) = profileResolves ext s (k, p)"
  by (simp add: profileResolves_def)

lemma profilesResolve_erase:
  "list_all (profileResolves ext s) (profileEntries (erase v))
   = list_all (profileResolves ext s) (profileEntries v)"
  by (simp add: profileEntries_erase list_all_iff)

lemma fieldResolved_erase_left:
  assumes "erase c = erase p" "fieldResolved ext st refField field c e"
  shows "fieldResolved ext st refField field p e"
proof -
  have "erase (optProp c refField) = erase (optProp p refField)"
    using assms(1) by (simp add: erase_optProp)
  then have "asSecretRef ext (optProp c refField) = asSecretRef ext (optProp p refField)"
    by (simp add: asSecretRef_def)
  moreover have "erase (withProp c field x) = erase (withProp p field x)" for x :: "nat jv"
    using assms(1) by (simp add: erase_withProp)
  ultimately show ?thesis using assms
    by (auto simp: fieldResolved_def deepEqual_def split: option.splits)
qed

lemma profileResolved_erase_left:
  assumes "fst c = fst p" "erase (snd c) = erase (snd p)" "profileResolved ext st c e"
  shows "profileResolved ext st p e"
proof -
  have "erase (optProp (snd c) ''type'') = erase (optProp (snd p) ''type'')"
    using assms(2) by (simp add: erase_optProp)
  then have t: "optProp (snd c) ''type'' = JStr s \<longleftrightarrow> optProp (snd p) ''type'' = JStr s" for s
    using erase_eq_prim(3)[of "optProp (snd c) ''type''" s]
      erase_eq_prim(3)[of "optProp (snd p) ''type''" s] by simp
  note f = fieldResolved_erase_left[OF assms(2)]
  have d: "deepEqual (snd e) (snd c) \<Longrightarrow> deepEqual (snd e) (snd p)"
    using assms(2) by (simp add: deepEqual_def)
  consider (api) "optProp (snd c) ''type'' = JStr ''api_key''"
    | (tok) "optProp (snd c) ''type'' \<noteq> JStr ''api_key''" "optProp (snd c) ''type'' = JStr ''token''"
    | (other) "optProp (snd c) ''type'' \<noteq> JStr ''api_key''" "optProp (snd c) ''type'' \<noteq> JStr ''token''"
    by blast
  then show ?thesis
  proof cases
    case api
    with assms(1,3) f[of ext st "''keyRef''" "''key''" "snd e"] t[of "''api_key''"]
    show ?thesis by (simp add: profileResolved_def)
  next
    case tok
    with assms(1,3) f[of ext st "''tokenRef''" "''token''" "snd e"] t[of "''api_key''"] t[of "''token''"]
    show ?thesis by (simp add: profileResolved_def)
  next
    case other
    with assms(1,3) d t[of "''api_key''"] t[of "''token''"]
    show ?thesis by (simp add: profileResolved_def)
  qed
qed

lemma profileResolved_transfer:
  assumes e: "erase c = erase store"
    and l: "list_all2 (profileResolved ext s) (profileEntries c) es"
  shows "list_all2 (profileResolved ext s) (profileEntries store) es"
proof -
  from e have "profileEntries (erase c) = profileEntries (erase store)" by simp
  then have "map (\<lambda>kv. (fst kv, erase (snd kv))) (profileEntries store)
           = map (\<lambda>kv. (fst kv, erase (snd kv))) (profileEntries c)"
    by (simp add: profileEntries_erase)
  from map_erase_eq_all2[OF this]
  have "list_all2 (\<lambda>x y. fst y = fst x \<and> erase (snd y) = erase (snd x))
          (profileEntries store) (profileEntries c)" .
  from list_all2_trans[of _ "profileResolved ext s" "profileResolved ext s", OF _ this l]
  show ?thesis by (auto intro: profileResolved_erase_left)
qed

lemma store_shape:
  "resolveAuthStoreSecretRefs ext store agentDir st =
     (if \<not> storeReadable (fst (structuredClone store (nextAddr st)))
      then (Inl TypeError, st\<lparr>nextAddr := snd (structuredClone store (nextAddr st))\<rparr>)
      else case forEntries (resolveProfile ext agentDir)
                  (profileEntries (fst (structuredClone store (nextAddr st))))
                  (st\<lparr>nextAddr := snd (structuredClone store (nextAddr st))\<rparr>) of
             (Inl e, s) \<Rightarrow> (Inl e, s)
           | (Inr es, s) \<Rightarrow>
               (Inr (withProp (fst (structuredClone store (nextAddr st))) ''profiles''
                       (withEntries
                          (optProp (fst (structuredClone store (nextAddr st))) ''profiles'') es)),
                s))"
proof -
  obtain c n where c: "structuredClone store (nextAddr st) = (c, n)"
    by (cases "structuredClone store (nextAddr st)")
  show ?thesis
  proof (cases "storeReadable c")
    case False
    then consider "c = JNull \<or> c = JUndefined"
      | "c \<noteq> JNull" "c \<noteq> JUndefined"
        "optProp c ''profiles'' = JNull \<or> optProp c ''profiles'' = JUndefined"
      by (auto simp: storeReadable_def)
    then show ?thesis
    proof cases
      case 1
      with c False show ?thesis
        by (auto simp: resolveAuthStoreSecretRefs_def getProp_def)
    next
      case 2
      with c False show ?thesis
        by (cases c) (auto simp: resolveAuthStoreSecretRefs_def getProp_def objectEntries_def)
    qed
  next
    case True
    then have g: "getProp c ''profiles'' = Inr (optProp c ''profiles'')"
      by (simp add: getProp_Inr storeReadable_def)
    from True have "objectEntries (optProp c ''profiles'') = Inr (profileEntries c)"
      by (cases "optProp c ''profiles''")
         (simp_all add: storeReadable_def objectEntries_def profileEntries_def)
    with c True g show ?thesis
      by (auto simp: resolveAuthStoreSecretRefs_def andThen_def split: prod.splits sum.splits)
  qed
qed

lemma store_result_entries:
  assumes "storeReadable c"
    and "forEntries body (profileEntries c) s0 = (Inr es, s)"
  shows "profileEntries (withProp c ''profiles'' (withEntries (optProp c ''profiles'') es)) = es"
proof -
  from assms(1) obtain a arr kvs where c: "c = JObj a arr kvs"
    by (cases c) (auto simp: storeReadable_def)
  have p: "optProp (withProp c ''profiles'' x) ''profiles'' = x" for x
    unfolding c by (simp add: optProp_withProp_same)
  show ?thesis
  proof (cases "isObject (optProp c ''profiles'')")
    case True
    then obtain pa parr pkvs where "optProp c ''profiles'' = JObj pa parr pkvs"
      by (cases "optProp c ''profiles''") (auto simp: isObject_def)
    then show ?thesis unfolding profileEntries_def p
      by (simp add: withEntries_def objectEntries_def)
  next
    case False
    with assms(1) have pe: "profileEntries c = []"
      and we: "withEntries (optProp c ''profiles'') es = optProp c ''profiles''"
      by (cases "optProp c ''profiles''";
          simp add: storeReadable_def profileEntries_def objectEntries_def isObject_def
            withEntries_def)+
    from pe assms(2) have "es = []" by simp
    with pe we show ?thesis unfolding profileEntries_def p by (simp add: profileEntries_def)
  qed
qed

lemma authStore_succeeds_iff:
  "succeeded (resolveAuthStoreSecretRefs ext store agentDir st) \<longleftrightarrow>
     storeReadable store
     \<and> list_all (profileResolves ext (snd (resolveAuthStoreSecretRefs ext store agentDir st)))
         (profileEntries store)"
proof -
  let ?c = "fst (structuredClone store (nextAddr st))"
  let ?st0 = "st\<lparr>nextAddr := snd (structuredClone store (nextAddr st))\<rparr>"
  have e: "erase ?c = erase store" by (rule clone_erase(1))
  have rd: "storeReadable ?c = storeReadable store"
    using storeReadable_erase[of ?c] storeReadable_erase[of store] e by simp
  have pe: "list_all (profileResolves ext s) (profileEntries ?c)
          = list_all (profileResolves ext s) (profileEntries store)" for s
    using profilesResolve_erase[of ext s ?c] profilesResolve_erase[of ext s store] e by simp
  show ?thesis
  proof (cases "storeReadable ?c")
    case False
    with rd show ?thesis by (simp add: store_shape succeeded_def)
  next
    case True
    obtain out s where f: "forEntries (resolveProfile ext agentDir) (profileEntries ?c) ?st0 = (out, s)"
      by (cases "forEntries (resolveProfile ext agentDir) (profileEntries ?c) ?st0")
    show ?thesis
    proof (cases out)
      case (Inl err)
      with f True have w: "resolveAuthStoreSecretRefs ext store agentDir st = (Inl err, s)"
        by (simp add: store_shape)
      from f Inl have "forEntries (resolveProfile ext agentDir) (profileEntries ?c) ?st0 = (Inl err, s)"
        by simp
      from forEntries_failed[OF _ this] obtain kv s1 where
        "kv \<in> set (profileEntries ?c)" "resolveProfile ext agentDir (fst kv) (snd kv) s1 = (Inl err, s)"
        using profile_later by blast
      with profile_failed[of ext agentDir "fst kv" "snd kv" s1 err s]
      have "\<not> list_all (profileResolves ext s) (profileEntries ?c)"
        by (auto simp: list_all_iff)
      with w pe[of s] show ?thesis by (simp add: succeeded_def)
    next
      case (Inr es)
      with f True have w: "resolveAuthStoreSecretRefs ext store agentDir st
          = (Inr (withProp ?c ''profiles'' (withEntries (optProp ?c ''profiles'') es)), s)"
        by (simp add: store_shape)
      from f Inr have f': "forEntries (resolveProfile ext agentDir) (profileEntries ?c) ?st0 = (Inr es, s)"
        by simp
      have "later ?st0 s \<and> (\<forall>t. later s t \<longrightarrow>
          list_all2 (\<lambda>kv kv'. fst kv' = fst kv \<and> profileResolves ext t (fst kv, snd kv))
            (profileEntries ?c) es)"
        by (rule forEntries_final[OF _ f']) (auto dest: profile_later profile_ok(2))
      then have "list_all2 (\<lambda>kv kv'. fst kv' = fst kv \<and> profileResolves ext s kv)
            (profileEntries ?c) es" by simp
      from list_all2_left[OF this] have "list_all (profileResolves ext s) (profileEntries ?c)" .
      with w pe[of s] True rd show ?thesis by (simp add: succeeded_def)
    qed
  qed
qed

lemma authStore_resolved:
  assumes w: "resolveAuthStoreSecretRefs ext store agentDir st = (Inr resolvedStore, sf)"
  shows "list_all2 (profileResolved ext sf) (profileEntries store) (profileEntries resolvedStore)"
    and "map warningContent (warnings sf)
           = map warningContent (warnings st)
             @ concat (map (profileWarnings ext agentDir) (profileEntries store))"
proof -
  let ?c = "fst (structuredClone store (nextAddr st))"
  let ?st0 = "st\<lparr>nextAddr := snd (structuredClone store (nextAddr st))\<rparr>"
  have e: "erase ?c = erase store" by (rule clone_erase(1))
  from w have rd: "storeReadable ?c" by (auto simp: store_shape split: if_splits)
  with w obtain es where
    f: "forEntries (resolveProfile ext agentDir) (profileEntries ?c) ?st0 = (Inr es, sf)"
    and r: "resolvedStore = withProp ?c ''profiles'' (withEntries (optProp ?c ''profiles'') es)"
    by (auto simp: store_shape split: prod.splits sum.splits)
  from store_result_entries[OF rd f] r have en: "profileEntries resolvedStore = es" by simp
  have "later ?st0 sf \<and> (\<forall>t. later sf t \<longrightarrow>
      list_all2 (\<lambda>kv kv'. fst kv' = fst kv
          \<and> profileResolved ext t (fst kv, snd kv) (fst kv, snd kv'))
        (profileEntries ?c) es)"
    by (rule forEntries_final[OF _ f]) (auto dest: profile_later profile_ok(1))
  then have "list_all2 (\<lambda>kv kv'. fst kv' = fst kv
          \<and> profileResolved ext sf (fst kv, snd kv) (fst kv, snd kv'))
        (profileEntries ?c) es" by simp
  then have "list_all2 (profileResolved ext sf) (profileEntries ?c) es"
    by (rule list_all2_mono) (auto simp: profileResolved_def split: if_splits)
  from profileResolved_transfer[OF e this] en
  show "list_all2 (profileResolved ext sf) (profileEntries store) (profileEntries resolvedStore)"
    by simp
  have "map warningContent (warnings sf)
      = map warningContent (warnings ?st0)
        @ concat (map (\<lambda>kv. profileWarnings ext agentDir (fst kv, snd kv)) (profileEntries ?c))"
    by (rule forEntries_warnings[OF _ f]) (rule profile_warnings)
  moreover have "map (\<lambda>kv. (fst kv, erase (snd kv))) (profileEntries ?c)
        = map (\<lambda>kv. (fst kv, erase (snd kv))) (profileEntries store)"
    using e profileEntries_erase[of ?c] profileEntries_erase[of store] by simp
  ultimately show "map warningContent (warnings sf)
           = map warningContent (warnings st)
             @ concat (map (profileWarnings ext agentDir) (profileEntries store))"
    using map_profileWarnings_erase[of "profileEntries ?c" "profileEntries store" ext agentDir]
    by simp
qed

section \<open>The claim about the credential stores\<close>



lemma exampleStore_result:
  "fst (resolveAuthStoreSecretRefs exampleExternals exampleStore ''main''
          (newPass plainConfig exampleEnv 40)) = Inr exampleStoreResolved"
  by code_simp

lemma exampleStore_walk:
  "resolveAuthStoreSecretRefs exampleExternals exampleStore ''main'' (newPass plainConfig exampleEnv 40)
   = (Inr exampleStoreResolved,
      snd (resolveAuthStoreSecretRefs exampleExternals exampleStore ''main''
             (newPass plainConfig exampleEnv 40)))"
  using exampleStore_result by (rule pair_fst)

lemma exampleStore_warnings:
  "concat (map (profileWarnings exampleExternals ''main'') (profileEntries exampleStore))
   = [(SECRETS_REF_OVERRIDES_PLAINTEXT, ''main.auth-profiles.openrouter:default.key'',
       ''auth-profiles openrouter:default: keyRef is set; runtime will ignore plaintext key.'')]"
  by code_simp

lemma exampleStore_types:
  "optProp openrouterProfile ''type'' = JStr ''api_key''"
  "optProp anthropicProfile ''type'' = JStr ''token''"
  "optProp codexProfile ''type'' = JStr ''oauth''"
  by (simp_all add: openrouterProfile_def anthropicProfile_def codexProfile_def optProp_def)

lemma stores_unshared: "unshared exampleStore" "unshared vaultStore" "unshared brokenStore"
  by code_simp+

lemma vaultStore_result:
  "fst (resolveAuthStoreSecretRefs exampleExternals vaultStore ''main''
          (newPass sopsConfig exampleEnv 40)) = Inr vaultStoreResolved"
  by code_simp

lemma vaultStore_walk:
  "resolveAuthStoreSecretRefs exampleExternals vaultStore ''main'' (newPass sopsConfig exampleEnv 40)
   = (Inr vaultStoreResolved,
      snd (resolveAuthStoreSecretRefs exampleExternals vaultStore ''main''
             (newPass sopsConfig exampleEnv 40)))"
  using vaultStore_result by (rule pair_fst)

lemma brokenStore_result:
  "fst (resolveAuthStoreSecretRefs countExternals brokenStore ''main''
          (newPass sopsConfig exampleEnv 40)) = Inl EmptyResolvedCredential"
  "storeReadable brokenStore"
  by code_simp+


end
